theory Spec2Isabelle
  imports Complex_Main "HOL-Library.Log_Nat"
begin

section \<open>Data model of \<open>data_clean/preprocessing.py\<close>\<close>

text \<open>
  The script filters a corpus of MIDI files and stacks the piano rolls of the files it
  keeps.  The MIDI parser (\<open>pretty_midi\<close>) and \<open>numpy\<close> are libraries: a parsed file
  is a record of what the script reads from it, and the few \<open>numpy\<close> operations the
  script calls are written out below.

  A Python float is an IEEE double.  Its value is a real number, and every arithmetic
  operation returns the exact result rounded to the nearest double, ties to the even
  significand.  The model has the 53-bit significand and this rounding; it does not have
  the bounds of the exponent (overflow to infinity, subnormal numbers) nor the sign of
  zero.  For the sum and the difference of two doubles this changes no comparison with a
  double: a sum in the subnormal range is exact, and a sum beyond the largest double is
  greater than every double, as infinity is.  \<open>NaN\<close> is a value of its own: a
  comparison with it is false and arithmetic on it gives \<open>NaN\<close>.
\<close>

subsection \<open>Rounding to a double\<close>

text \<open>The power \<open>2\<^sup>e\<close> for an integer exponent.\<close>

definition pow2 :: "int \<Rightarrow> real" where
  "pow2 e = (if 0 \<le> e then 2 ^ nat e else 1 / 2 ^ nat (- e))"

text \<open>For a positive \<open>x\<close>, the exponent \<open>k\<close> with \<open>2\<^sup>k \<le> x < 2\<^sup>k\<^sup>+\<^sup>1\<close>.\<close>

definition ilog2 :: "real \<Rightarrow> int" where
  "ilog2 x = (if 1 \<le> x then bitlen \<lfloor>x\<rfloor> - 1 else - bitlen (\<lceil>1 / x\<rceil> - 1))"

text \<open>The nearest integer, a tie going to the even one.\<close>

definition round_half_even :: "real \<Rightarrow> int" where
  "round_half_even x =
     (let f = \<lfloor>x\<rfloor>; d = x - of_int f
      in if d < 1 / 2 then f else if 1 / 2 < d then f + 1 else if even f then f else f + 1)"

text \<open>
  The nearest double: \<open>x\<close> is scaled so that its integer part has 53 bits, rounded
  to an integer, and scaled back.
\<close>

definition round_double :: "real \<Rightarrow> real" where
  "round_double x =
     (if x = 0 then 0
      else (let s = pow2 (ilog2 \<bar>x\<bar> - 52)
            in sgn x * of_int (round_half_even (\<bar>x\<bar> / s)) * s))"

subsection \<open>Float operations\<close>

datatype pyfloat = Fin real | NaN

fun fl_add :: "pyfloat \<Rightarrow> pyfloat \<Rightarrow> pyfloat" where
  "fl_add (Fin a) (Fin b) = Fin (round_double (a + b))"
| "fl_add _ _ = NaN"

fun fl_sub :: "pyfloat \<Rightarrow> pyfloat \<Rightarrow> pyfloat" where
  "fl_sub (Fin a) (Fin b) = Fin (round_double (a - b))"
| "fl_sub _ _ = NaN"

fun fl_lt :: "pyfloat \<Rightarrow> pyfloat \<Rightarrow> bool" where
  "fl_lt (Fin a) (Fin b) = (a < b)"
| "fl_lt _ _ = False"

fun fl_gt :: "pyfloat \<Rightarrow> pyfloat \<Rightarrow> bool" where
  "fl_gt (Fin a) (Fin b) = (a > b)"
| "fl_gt _ _ = False"

text \<open>
  The exceptions the script can meet.  The script defines no exception class of its own
  for the pipeline; each constructor names the Python exception and the place it comes
  from:
  \<^item> \<open>EmptyTrackError\<close>: the \<open>ValueError\<close> of \<open>min(notes)\<close> on an empty list;
  \<^item> \<open>EmptyCorpusError\<close>: the \<open>ValueError\<close> of \<open>np.hstack\<close> on an empty list;
  \<^item> \<open>ShapeMismatch\<close>: the \<open>ValueError\<close> of \<open>np.hstack\<close> on arrays whose row counts differ;
  \<^item> \<open>IndexError\<close>: \<open>xs[0]\<close> on an empty list;
  \<^item> \<open>NaNToInt\<close>: the \<open>ValueError\<close> of \<open>int(nan)\<close>;
  \<^item> \<open>ParseError\<close>: anything the parser raises on a file, with its message;
  \<^item> \<open>TempoError\<close>: the \<open>ValueError\<close> that \<open>pm.estimate_tempo()\<close> raises when the track
    has too few notes for an estimate.
\<close>

datatype error =
    EmptyTrackError
  | EmptyCorpusError
  | ShapeMismatch
  | IndexError
  | NaNToInt
  | ParseError string
  | TempoError

text \<open>
  A two-dimensional \<open>numpy\<close> array: its rows, and the number of columns kept apart so
  that an array with no row still has a shape.
\<close>

record 'a ndarray =
  ncols :: nat
  rows :: "'a list list"

definition shape :: "'a ndarray \<Rightarrow> nat \<times> nat" where
  "shape a = (length (rows a), ncols a)"

definition ndarray_ok :: "'a ndarray \<Rightarrow> bool" where
  "ndarray_ok a = list_all (\<lambda>r. length r = ncols a) (rows a)"

record Note =
  pitch :: int
  velocity :: int

record Instrument =
  "notes" :: "Note list"

record KeySignature =
  key_number :: int

record TimeSignature =
  numerator :: int
  denominator :: int

text \<open>
  A parsed file.  \<open>tempo_changes\<close> are the tempo declarations of the file (time and
  tempo), \<open>estimate_tempo\<close> and \<open>get_piano_roll\<close> are what the library's methods of
  these names return for it.  \<open>estimate_tempo\<close> returns a double or raises;
  \<open>get_piano_roll\<close> returns an array.
\<close>

record PrettyMIDI =
  key_signature_changes :: "KeySignature list"
  time_signature_changes :: "TimeSignature list"
  tempo_changes :: "(real \<times> real) list"
  instruments :: "Instrument list"
  estimate_tempo :: "error + real"
  get_piano_roll :: "real ndarray"

section \<open>The range tests\<close>

definition is_in_tempo_range :: "pyfloat \<Rightarrow> pyfloat \<Rightarrow> pyfloat \<Rightarrow> bool" where
  "is_in_tempo_range tempo mean std =
     (if fl_gt tempo (fl_sub mean std) \<and> fl_lt tempo (fl_add mean std) then True else False)"

definition is_in_pitch_range :: "int \<Rightarrow> int \<Rightarrow> int \<Rightarrow> int \<Rightarrow> bool" where
  "is_in_pitch_range low_pitch high_pitch left_boundary right_boundary =
     (if low_pitch \<ge> left_boundary \<and> high_pitch \<le> right_boundary then True else False)"

section \<open>Metadata aggregation\<close>

text \<open>
  The sum of a float array, \<open>np.add.reduce\<close>.  \<open>numpy\<close> adds in double arithmetic in
  the order of its pairwise summation: fewer than 8 elements are added from left to
  right; up to 128 elements are added in 8 interleaved lanes that are then combined in
  pairs, and the elements left after the last full block of 8 are added one by one; a
  longer array is split into two parts, the first of a length that is a multiple of 8.
\<close>

definition lane :: "real list \<Rightarrow> nat \<Rightarrow> nat \<Rightarrow> real" where
  "lane a m j =
     foldl (\<lambda>r i. round_double (r + a ! (i + j))) (a ! j) (map (\<lambda>q. 8 * q) [1..<m div 8])"

definition half8 :: "nat \<Rightarrow> nat" where
  "half8 n = n div 2 - (n div 2) mod 8"

function pairwise_sum :: "real list \<Rightarrow> real" where
  "pairwise_sum a =
     (if length a < 8 then foldl (\<lambda>res x. round_double (res + x)) 0 a
      else if length a \<le> 128 then
        (let m = length a - length a mod 8;
             r = lane a m;
             res = round_double
                     (round_double (round_double (r 0 + r 1) + round_double (r 2 + r 3)) +
                      round_double (round_double (r 4 + r 5) + round_double (r 6 + r 7)))
         in foldl (\<lambda>res x. round_double (res + x)) res (drop m a))
      else round_double (pairwise_sum (take (half8 (length a)) a) +
                         pairwise_sum (drop (half8 (length a)) a)))"
  by pat_completeness auto
termination
  by (relation "measure length") (auto simp: half8_def)

declare pairwise_sum.simps [simp del]

text \<open>The reduction starts from the identity 0 of the addition.\<close>

definition np_sum :: "real list \<Rightarrow> real" where
  "np_sum a = round_double (0 + pairwise_sum a)"

text \<open>
  \<open>np.array(xs).mean()\<close>: the sum divided by the number of elements.  On an empty array
  it is \<open>0 / 0\<close>, which is \<open>nan\<close> with a warning; it does not raise.
\<close>

definition np_mean :: "real list \<Rightarrow> pyfloat" where
  "np_mean xs =
     (if xs = [] then NaN
      else Fin (round_double (np_sum xs / round_double (real (length xs)))))"

text \<open>
  \<open>np.array(xs).std()\<close>, the population standard deviation: the mean, the differences
  from it, their squares, the mean of the squares, and its square root, each step
  rounded.
\<close>

definition np_std :: "real list \<Rightarrow> pyfloat" where
  "np_std xs =
     (if xs = [] then NaN
      else (let n = round_double (real (length xs));
                arrmean = round_double (np_sum xs / n);
                x = map (\<lambda>v. round_double (v - arrmean)) xs;
                x2 = map (\<lambda>d. round_double (d * d)) x;
                var = round_double (np_sum x2 / n)
            in Fin (round_double (sqrt var))))"

text \<open>The mean of an array of integers: each element is converted to a double first.\<close>

definition np_mean_int :: "int list \<Rightarrow> pyfloat" where
  "np_mean_int xs = np_mean (map (\<lambda>p. round_double (of_int p)) xs)"

text \<open>\<open>int(x)\<close> on a float truncates towards zero and raises on \<open>nan\<close>.\<close>

fun py_int :: "pyfloat \<Rightarrow> error + int" where
  "py_int NaN = Inl NaNToInt"
| "py_int (Fin x) = Inr (if 0 \<le> x then \<lfloor>x\<rfloor> else \<lceil>x\<rceil>)"

text \<open>
  \<open>FileReport\<close>.  \<open>freq_key\<close> is a Python dict from key number to count; its items
  keep insertion order, which the sort below depends on, so it is an association list.
\<close>

record FileReport =
  tempos :: "real list"
  freq_key :: "(int \<times> int) list"
  min_pitch :: "int list"
  max_pitch :: "int list"

text \<open>
  \<open>sorted(keys.items(), key=lambda kv: kv[1], reverse=reversed)[0][0]\<close>.  Python's sort is
  stable, also with \<open>reverse=True\<close>, so the descending sort is the stable ascending sort
  on the negated count.
\<close>

definition get_most_freq_value :: "(int \<times> int) list \<Rightarrow> bool \<Rightarrow> error + int" where
  "get_most_freq_value keys reversed =
     (case sort_key (\<lambda>kv. if reversed then - snd kv else snd kv) keys of
        [] \<Rightarrow> Inl IndexError
      | kv # _ \<Rightarrow> Inr (fst kv))"

definition aggregation_report ::
  "FileReport \<Rightarrow> error + (pyfloat \<times> pyfloat \<times> int \<times> int \<times> int)" where
  "aggregation_report r =
     (let temp_mean = np_mean (tempos r);
          temp_std = np_std (tempos r)
      in case get_most_freq_value (freq_key r) True of
           Inl e \<Rightarrow> Inl e
         | Inr most_freq_key \<Rightarrow>
            (case py_int (np_mean_int (min_pitch r)) of
               Inl e \<Rightarrow> Inl e
             | Inr mn \<Rightarrow>
                (case py_int (np_mean_int (max_pitch r)) of
                   Inl e \<Rightarrow> Inl e
                 | Inr mx \<Rightarrow> Inr (temp_mean, temp_std, most_freq_key, mn, mx))))"

text \<open>\<open>collections.Counter\<close> over a list, as a dict in first-occurrence order.\<close>

fun counter_add :: "int \<Rightarrow> (int \<times> int) list \<Rightarrow> (int \<times> int) list" where
  "counter_add k [] = [(k, 1)]"
| "counter_add k ((k', c) # kvs) =
     (if k = k' then (k', c + 1) # kvs else (k', c) # counter_add k kvs)"

definition Counter :: "int list \<Rightarrow> (int \<times> int) list" where
  "Counter keys = foldl (\<lambda>d k. counter_add k d) [] keys"

text \<open>
  \<open>Preprocess._get_min_max_pitch\<close>: \<open>min\<close> and \<open>max\<close> of the pitches of all notes of all
  instruments; both raise on an empty list, \<open>min\<close> first.
\<close>

definition get_min_max_pitch :: "PrettyMIDI \<Rightarrow> error + (int \<times> int)" where
  "get_min_max_pitch pm =
     (case [pitch note. instrument \<leftarrow> instruments pm, note \<leftarrow> notes instrument] of
        [] \<Rightarrow> Inl EmptyTrackError
      | p # ps \<Rightarrow> Inr (fold min ps p, fold max ps p))"

text \<open>
  The loop of \<open>Preprocess.generate_midi_files_report\<close>, with its four lists as the
  accumulator.  The loop body calls \<open>pm.estimate_tempo()\<close> first, which can raise;
  \<open>pm.key_signature_changes[0]\<close> raises on a file with no key signature.
\<close>

fun report_loop ::
  "PrettyMIDI list \<Rightarrow> real list \<times> int list \<times> int list \<times> int list \<Rightarrow>
   error + (real list \<times> int list \<times> int list \<times> int list)" where
  "report_loop [] acc = Inr acc"
| "report_loop (pm # pms) (tempos_acc, keys, max_pitchs, min_pitchs) =
     (case estimate_tempo pm of
        Inl e \<Rightarrow> Inl e
      | Inr tempo \<Rightarrow>
         (case key_signature_changes pm of
            [] \<Rightarrow> Inl IndexError
          | ks # _ \<Rightarrow>
             (case get_min_max_pitch pm of
                Inl e \<Rightarrow> Inl e
              | Inr (mn, mx) \<Rightarrow>
                  report_loop pms
                    (tempos_acc @ [tempo], keys @ [key_number ks],
                     max_pitchs @ [mx], min_pitchs @ [mn]))))"

definition generate_midi_files_report :: "PrettyMIDI list \<Rightarrow> error + FileReport" where
  "generate_midi_files_report pms =
     (case report_loop pms ([], [], [], []) of
        Inl e \<Rightarrow> Inl e
      | Inr (tempos_acc, keys, max_pitchs, min_pitchs) \<Rightarrow>
          Inr \<lparr>tempos = tempos_acc, freq_key = Counter keys,
               min_pitch = min_pitchs, max_pitch = max_pitchs\<rparr>)"

section \<open>Range filter and matrix assembly\<close>

text \<open>
  Python's \<open>xs[i:j]\<close>: a negative index counts from the end, and both ends are clipped
  to the list.
\<close>

definition py_slice :: "'a list \<Rightarrow> int \<Rightarrow> int \<Rightarrow> 'a list" where
  "py_slice xs i j =
     (let n = int (length xs);
          a = (if i < 0 then max 0 (n + i) else min i n);
          b = (if j < 0 then max 0 (n + j) else min j n)
      in take (nat (b - a)) (drop (nat a) xs))"

text \<open>\<open>a[i:j]\<close> on a two-dimensional array slices its rows.\<close>

definition slice_rows :: "'a ndarray \<Rightarrow> int \<Rightarrow> int \<Rightarrow> 'a ndarray" where
  "slice_rows a i j = a\<lparr>rows := py_slice (rows a) i j\<rparr>"

text \<open>
  \<open>np.hstack\<close> on two-dimensional arrays concatenates along the second axis: row \<open>i\<close> of
  the result is the rows \<open>i\<close> of the arguments, one after the other.  It raises on an
  empty list and on arrays whose row counts differ.
\<close>

fun np_hstack :: "'a ndarray list \<Rightarrow> error + 'a ndarray" where
  "np_hstack [] = Inl EmptyCorpusError"
| "np_hstack (a # as) =
     (if list_all (\<lambda>b. length (rows b) = length (rows a)) as
      then Inr \<lparr>ncols = sum_list (map ncols (a # as)),
                rows = map (\<lambda>i. concat (map (\<lambda>b. rows b ! i) (a # as)))
                         [0..<length (rows a)]\<rparr>
      else Inl ShapeMismatch)"

text \<open>The transpose \<open>a.T\<close>.\<close>

definition ndarray_T :: "'a ndarray \<Rightarrow> 'a ndarray" where
  "ndarray_T a =
     \<lparr>ncols = length (rows a),
      rows = map (\<lambda>j. map (\<lambda>r. r ! j) (rows a)) [0..<ncols a]\<rparr>"

text \<open>The loop of \<open>Preprocess.piano_roll_filter\<close>, with \<open>piano_rolls\<close> as the accumulator.\<close>

fun piano_rolls_loop ::
  "PrettyMIDI list \<Rightarrow> pyfloat \<Rightarrow> pyfloat \<Rightarrow> int \<Rightarrow> int \<Rightarrow> real ndarray list \<Rightarrow>
   error + real ndarray list" where
  "piano_rolls_loop [] temp_mean temp_std left_pitch_bounary right_pitch_boundary piano_rolls =
     Inr piano_rolls"
| "piano_rolls_loop (pm # pms) temp_mean temp_std left_pitch_bounary right_pitch_boundary
     piano_rolls =
     (case estimate_tempo pm of
        Inl e \<Rightarrow> Inl e
      | Inr tempo \<Rightarrow>
         (case get_min_max_pitch pm of
            Inl e \<Rightarrow> Inl e
          | Inr (mn, mx) \<Rightarrow>
              if is_in_tempo_range (Fin tempo) temp_mean temp_std \<and>
                 is_in_pitch_range mn mx left_pitch_bounary right_pitch_boundary
              then piano_rolls_loop pms temp_mean temp_std left_pitch_bounary
                     right_pitch_boundary
                     (piano_rolls @
                       [slice_rows (get_piano_roll pm) left_pitch_bounary
                          (right_pitch_boundary + 1)])
              else piano_rolls_loop pms temp_mean temp_std left_pitch_bounary
                     right_pitch_boundary piano_rolls))"

definition piano_roll_filter :: "PrettyMIDI list \<Rightarrow> error + real ndarray" where
  "piano_roll_filter pms =
     (case generate_midi_files_report pms of
        Inl e \<Rightarrow> Inl e
      | Inr report \<Rightarrow>
         (case aggregation_report report of
            Inl e \<Rightarrow> Inl e
          | Inr (temp_mean, temp_std, key, left_pitch_bounary, right_pitch_boundary) \<Rightarrow>
             (case piano_rolls_loop pms temp_mean temp_std left_pitch_bounary
                     right_pitch_boundary [] of
                Inl e \<Rightarrow> Inl e
              | Inr piano_rolls \<Rightarrow>
                 (case np_hstack piano_rolls of
                    Inl e \<Rightarrow> Inl e
                  | Inr result \<Rightarrow> Inr (ndarray_T result)))))"

section \<open>Corpus loader\<close>

text \<open>\<open>os.path.join\<close> of two components (POSIX).\<close>

definition join :: "string \<Rightarrow> string \<Rightarrow> string" where
  "join a b =
     (if b \<noteq> [] \<and> hd b = CHR ''/'' then b
      else if a = [] \<or> last a = CHR ''/'' then a @ b
      else a @ ''/'' @ b)"

text \<open>
  The body of the \<open>try\<close> in \<open>Preprocess._file_filter\<close>: parse the file, and append it to
  \<open>self.pms\<close> when it has one key signature and one time signature.  The parser is a
  parameter: any function from paths to a parsed file or an exception.
\<close>

definition try_body ::
  "(string \<Rightarrow> error + PrettyMIDI) \<Rightarrow> string \<Rightarrow> PrettyMIDI list \<Rightarrow> error + PrettyMIDI list" where
  "try_body parse path pms =
     (case parse path of
        Inl e \<Rightarrow> Inl e
      | Inr pm \<Rightarrow>
          if length (key_signature_changes pm) = 1 \<and> length (time_signature_changes pm) = 1
          then Inr (pms @ [pm])
          else Inr pms)"

text \<open>The \<open>try\<close> with its handler \<open>except: pass\<close>.\<close>

definition try_except_pass ::
  "(string \<Rightarrow> error + PrettyMIDI) \<Rightarrow> string \<Rightarrow> PrettyMIDI list \<Rightarrow> error + PrettyMIDI list" where
  "try_except_pass parse path pms =
     (case try_body parse path pms of
        Inl e \<Rightarrow> Inr pms
      | Inr pms' \<Rightarrow> Inr pms')"

text \<open>The inner loop, over the files of one directory; an exception of its body would end it.\<close>

fun files_loop ::
  "(string \<Rightarrow> error + PrettyMIDI) \<Rightarrow> string \<Rightarrow> string list \<Rightarrow> PrettyMIDI list \<Rightarrow>
   error + PrettyMIDI list" where
  "files_loop parse dirPath [] pms = Inr pms"
| "files_loop parse dirPath (file # files) pms =
     (case try_except_pass parse (join dirPath file) pms of
        Inl e \<Rightarrow> Inl e
      | Inr pms' \<Rightarrow> files_loop parse dirPath files pms')"

text \<open>
  The outer loop, over what \<open>os.walk\<close> yields: for each directory its path, its
  subdirectories and its files.
\<close>

fun walk_loop ::
  "(string \<Rightarrow> error + PrettyMIDI) \<Rightarrow> (string \<times> string list \<times> string list) list \<Rightarrow>
   PrettyMIDI list \<Rightarrow> error + PrettyMIDI list" where
  "walk_loop parse [] pms = Inr pms"
| "walk_loop parse ((dirPath, _, files) # ws) pms =
     (case files_loop parse dirPath files pms of
        Inl e \<Rightarrow> Inl e
      | Inr pms' \<Rightarrow> walk_loop parse ws pms')"

definition file_filter ::
  "(string \<Rightarrow> error + PrettyMIDI) \<Rightarrow> (string \<times> string list \<times> string list) list \<Rightarrow>
   error + PrettyMIDI list" where
  "file_filter parse walk = walk_loop parse walk []"

text \<open>
  The script's main block after the argument check: load, filter and assemble, and
  print the shape of the result.
\<close>

definition main ::
  "(string \<Rightarrow> error + PrettyMIDI) \<Rightarrow> (string \<times> string list \<times> string list) list \<Rightarrow>
   error + (nat \<times> nat)" where
  "main parse walk =
     (case file_filter parse walk of
        Inl e \<Rightarrow> Inl e
      | Inr pms \<Rightarrow>
         (case piano_roll_filter pms of
            Inl e \<Rightarrow> Inl e
          | Inr result \<Rightarrow> Inr (shape result)))"

section \<open>Notions used to state the properties\<close>

text \<open>The pitches of all notes of a track, in the order the script scans them.\<close>

definition track_pitches :: "PrettyMIDI \<Rightarrow> int list" where
  "track_pitches pm = [pitch note. instrument \<leftarrow> instruments pm, note \<leftarrow> notes instrument]"

text \<open>
  The condition under which the loop of \<open>piano_roll_filter\<close> appends the piano roll of a
  track: the tempo estimate returns, the track has a note, and both range tests hold.
\<close>

definition admitted :: "pyfloat \<Rightarrow> pyfloat \<Rightarrow> int \<Rightarrow> int \<Rightarrow> PrettyMIDI \<Rightarrow> bool" where
  "admitted temp_mean temp_std low high pm =
     (case estimate_tempo pm of
        Inl e \<Rightarrow> False
      | Inr tempo \<Rightarrow>
         (case get_min_max_pitch pm of
            Inl e \<Rightarrow> False
          | Inr (mn, mx) \<Rightarrow>
              is_in_tempo_range (Fin tempo) temp_mean temp_std \<and>
              is_in_pitch_range mn mx low high))"

text \<open>
  What the MIDI format and the parser guarantee of a parsed file: pitches are between 0
  and 127, and the piano roll is a rectangular array with 128 rows.
\<close>

definition midi_ok :: "PrettyMIDI \<Rightarrow> bool" where
  "midi_ok pm =
     (list_all (\<lambda>p. 0 \<le> p \<and> p \<le> 127) (track_pitches pm) \<and>
      length (rows (get_piano_roll pm)) = 128 \<and>
      ndarray_ok (get_piano_roll pm))"

text \<open>The paths the loader visits, in the order of the traversal.\<close>

definition walk_paths :: "(string \<times> string list \<times> string list) list \<Rightarrow> string list" where
  "walk_paths walk = concat (map (\<lambda>(dirPath, _, files). map (join dirPath) files) walk)"

text \<open>The files among the given paths that parse, in order.\<close>

definition parsed_files :: "(string \<Rightarrow> error + PrettyMIDI) \<Rightarrow> string list \<Rightarrow> PrettyMIDI list" where
  "parsed_files parse paths =
     concat (map (\<lambda>path. case parse path of Inl e \<Rightarrow> [] | Inr pm \<Rightarrow> [pm]) paths)"

text \<open>A track with exactly one key signature and exactly one time signature.\<close>

definition single_signature :: "PrettyMIDI \<Rightarrow> bool" where
  "single_signature pm =
     (length (key_signature_changes pm) = 1 \<and> length (time_signature_changes pm) = 1)"

section \<open>Example tracks\<close>

text \<open>
  A track with the given tempo estimate, key signatures, tempo declarations and note
  pitches, one time signature, one instrument, and a piano roll of \<open>n\<close> frames whose
  cell for pitch \<open>p\<close> and frame \<open>j\<close> holds a number that tells the track, the pitch
  and the frame.
\<close>

definition example_cell :: "real \<Rightarrow> nat \<Rightarrow> nat \<Rightarrow> real" where
  "example_cell tempo p j = tempo * 100000 + real p * 100 + real j"

definition example_track ::
  "real \<Rightarrow> int list \<Rightarrow> (real \<times> real) list \<Rightarrow> int list \<Rightarrow> nat \<Rightarrow> PrettyMIDI" where
  "example_track tempo keys tcs ps n =
     \<lparr>key_signature_changes = map (\<lambda>k. \<lparr>key_number = k\<rparr>) keys,
      time_signature_changes = [\<lparr>numerator = 4, denominator = 4\<rparr>],
      tempo_changes = tcs,
      instruments = [\<lparr>notes = map (\<lambda>p. \<lparr>pitch = p, velocity = 100\<rparr>) ps\<rparr>],
      estimate_tempo = Inr tempo,
      get_piano_roll =
        \<lparr>ncols = n, rows = map (\<lambda>p. map (example_cell tempo p) [0..<n]) [0..<128]\<rparr>\<rparr>"

definition track_a :: PrettyMIDI where
  "track_a = example_track 113 [0] [(0, 113)] [40, 90] 4"

definition track_b :: PrettyMIDI where
  "track_b = example_track 119 [0] [(0, 119)] [60, 64] 2"

definition track_c :: PrettyMIDI where
  "track_c = example_track 121 [7] [(0, 121)] [62, 70] 3"

definition track_d :: PrettyMIDI where
  "track_d = example_track 127 [0] [(0, 127)] [50, 80] 1"

text \<open>A track with one key signature and one time signature, and two tempo declarations.\<close>

definition track_two_tempos :: PrettyMIDI where
  "track_two_tempos = example_track 100 [0] [(0, 120), (10, 90)] [60, 64] 2"

text \<open>A track with two key signatures.\<close>

definition track_two_keys :: PrettyMIDI where
  "track_two_keys = example_track 100 [0, 5] [(0, 100)] [60, 64] 2"

text \<open>A track with one note, for which the tempo estimate raises.\<close>

definition track_one_note :: PrettyMIDI where
  "track_one_note = (example_track 100 [0] [(0, 100)] [60] 2)\<lparr>estimate_tempo := Inl TempoError\<rparr>"

text \<open>A track without notes.\<close>

definition track_silent :: PrettyMIDI where
  "track_silent = example_track 100 [0] [(0, 100)] [] 0"

text \<open>A directory with the files \<open>a.mid\<close> to \<open>d.mid\<close>, and a parser for it.\<close>

definition example_walk :: "(string \<times> string list \<times> string list) list" where
  "example_walk = [(''corpus'', [], [''a.mid'', ''b.mid'', ''x.txt'', ''c.mid'', ''d.mid''])]"

definition example_parse :: "string \<Rightarrow> error + PrettyMIDI" where
  "example_parse path =
     (if path = ''corpus/a.mid'' then Inr track_a
      else if path = ''corpus/b.mid'' then Inr track_b
      else if path = ''corpus/c.mid'' then Inr track_c
      else if path = ''corpus/d.mid'' then Inr track_d
      else if path = ''corpus/k.mid'' then Inr track_two_keys
      else if path = ''corpus/s.mid'' then Inr track_silent
      else if path = ''corpus/t.mid'' then Inr track_two_tempos
      else if path = ''corpus/o.mid'' then Inr track_one_note
      else Inl (ParseError ''not a MIDI file''))"

section \<open>Properties\<close>

subsection \<open>Rounding\<close>

lemma pow2_powr: "pow2 e = 2 powr (of_int e)"
proof (cases "0 \<le> e")
  case True
  then have "2 powr (of_int e) = (2::real) powr (real (nat e))" by simp
  also have "\<dots> = 2 ^ nat e" by (rule powr_realpow) simp
  finally show ?thesis using True by (simp add: pow2_def)
next
  case False
  then have "2 powr (of_int e) = (2::real) powr (- real (nat (- e)))" by simp
  also have "\<dots> = 1 / 2 powr (real (nat (- e)))" by (simp add: powr_minus divide_inverse)
  also have "2 powr (real (nat (- e))) = (2::real) ^ nat (- e)" by (rule powr_realpow) simp
  finally show ?thesis using False by (simp add: pow2_def)
qed

lemma pow2_pos [simp]: "0 < pow2 e"
  by (simp add: pow2_powr)

lemma pow2_neq_0 [simp]: "pow2 e \<noteq> 0"
  using pow2_pos [of e] by linarith

lemma pow2_add: "pow2 (a + b) = pow2 a * pow2 b"
  by (simp add: pow2_powr powr_add)

lemma pow2_diff: "pow2 a / pow2 b = pow2 (a - b)"
  by (simp add: pow2_powr powr_diff)

lemma pow2_less_iff [simp]: "pow2 a < pow2 b \<longleftrightarrow> a < b"
  by (simp add: pow2_powr)

lemma pow2_le_iff [simp]: "pow2 a \<le> pow2 b \<longleftrightarrow> a \<le> b"
  by (simp add: pow2_powr)

lemma pow2_nat: "0 \<le> e \<Longrightarrow> pow2 e = 2 ^ nat e"
  by (simp add: pow2_def)

lemma pow2_0 [simp]: "pow2 0 = 1"
  by (simp add: pow2_def)

lemma pow_le_of_int: "(2::int) ^ k \<le> n \<Longrightarrow> (2::real) ^ k \<le> of_int n"
proof -
  assume "(2::int) ^ k \<le> n"
  then have "real_of_int (2 ^ k) \<le> real_of_int n" by (simp only: of_int_le_iff)
  then show ?thesis by simp
qed

lemma of_int_less_pow: "n < (2::int) ^ k \<Longrightarrow> of_int n + 1 \<le> (2::real) ^ k"
proof -
  assume "n < (2::int) ^ k"
  then have "n + 1 \<le> 2 ^ k" by simp
  then have "real_of_int (n + 1) \<le> real_of_int (2 ^ k)" by (simp only: of_int_le_iff)
  then show ?thesis by simp
qed

lemma ilog2_bounds:
  assumes "0 < x"
  shows "pow2 (ilog2 x) \<le> x" and "x < pow2 (ilog2 x + 1)"
proof -
  have "pow2 (ilog2 x) \<le> x \<and> x < pow2 (ilog2 x + 1)"
  proof (cases "1 \<le> x")
    case True
    let ?n = "\<lfloor>x\<rfloor>"
    from True have n: "0 < ?n" by simp
    from bitlen_bounds [OF n] have b: "2 ^ nat (bitlen ?n - 1) \<le> ?n" "?n < 2 ^ nat (bitlen ?n)"
      by simp_all
    from n have b1: "1 \<le> bitlen ?n" by (simp add: bitlen_alt_def)
    have fl: "real_of_int ?n \<le> x" "x < real_of_int ?n + 1" by linarith+
    from pow_le_of_int [OF b(1)] fl(1) have "(2::real) ^ nat (bitlen ?n - 1) \<le> x" by linarith
    with b1 have lo: "pow2 (bitlen ?n - 1) \<le> x" by (simp add: pow2_nat)
    from of_int_less_pow [OF b(2)] fl(2) have "x < 2 ^ nat (bitlen ?n)" by linarith
    with b1 have hi: "x < pow2 (bitlen ?n)" by (simp add: pow2_nat)
    from lo hi True show ?thesis by (simp add: ilog2_def)
  next
    case False
    let ?y = "1 / x"
    let ?m = "\<lceil>?y\<rceil> - 1"
    from False assms have y: "1 < ?y" by simp
    then have "1 < \<lceil>?y\<rceil>" by (simp only: less_ceiling_iff of_int_1)
    then have m: "0 < ?m" by simp
    from bitlen_bounds [OF m] have b: "2 ^ nat (bitlen ?m - 1) \<le> ?m" "?m < 2 ^ nat (bitlen ?m)"
      by simp_all
    from m have b1: "1 \<le> bitlen ?m" by (simp add: bitlen_alt_def)
    have cl: "real_of_int ?m < ?y" "?y \<le> real_of_int ?m + 1" by linarith+
    from pow_le_of_int [OF b(1)] cl(1) have "2 ^ nat (bitlen ?m - 1) < ?y" by linarith
    with assms have "x < 1 / 2 ^ nat (bitlen ?m - 1)"
      by (simp add: field_simps)
    moreover have "pow2 (- bitlen ?m + 1) = 1 / 2 ^ nat (bitlen ?m - 1)"
    proof (cases "bitlen ?m = 1")
      case True
      then show ?thesis by (simp add: pow2_def)
    next
      case False
      with b1 have "nat (- (- bitlen ?m + 1)) = nat (bitlen ?m - 1)" "\<not> 0 \<le> - bitlen ?m + 1"
        by simp_all
      then show ?thesis by (simp only: pow2_def if_False)
    qed
    ultimately have hi: "x < pow2 (- bitlen ?m + 1)" by simp
    from of_int_less_pow [OF b(2)] cl(2) have "?y \<le> 2 ^ nat (bitlen ?m)" by linarith
    with assms have "1 / 2 ^ nat (bitlen ?m) \<le> x"
      by (simp add: field_simps)
    moreover have "pow2 (- bitlen ?m) = 1 / 2 ^ nat (bitlen ?m)"
      using b1 by (simp add: pow2_def)
    ultimately have lo: "pow2 (- bitlen ?m) \<le> x" by simp
    from lo hi False show ?thesis by (simp add: ilog2_def)
  qed
  then show "pow2 (ilog2 x) \<le> x" and "x < pow2 (ilog2 x + 1)" by simp_all
qed

lemma ilog2_unique:
  assumes "pow2 k \<le> x" "x < pow2 (k + 1)"
  shows "ilog2 x = k"
proof -
  from assms(1) have x: "0 < x" using pow2_pos [of k] by linarith
  from ilog2_bounds(1) [OF x] assms(2) have "pow2 (ilog2 x) < pow2 (k + 1)" by linarith
  moreover from ilog2_bounds(2) [OF x] assms(1) have "pow2 k < pow2 (ilog2 x + 1)" by linarith
  ultimately show ?thesis by simp
qed


lemma round_half_even_of_int [simp]: "round_half_even (of_int k) = k"
  by (simp add: round_half_even_def)

lemma round_half_even_mono: "x \<le> y \<Longrightarrow> round_half_even x \<le> round_half_even y"
proof -
  assume xy: "x \<le> y"
  then have f: "\<lfloor>x\<rfloor> \<le> \<lfloor>y\<rfloor>" by (rule floor_mono)
  have lo: "\<lfloor>z\<rfloor> \<le> round_half_even z" and hi: "round_half_even z \<le> \<lfloor>z\<rfloor> + 1" for z
    by (simp_all add: round_half_even_def Let_def)
  show ?thesis
  proof (cases "\<lfloor>x\<rfloor> = \<lfloor>y\<rfloor>")
    case True
    with xy show ?thesis
      by (auto simp: round_half_even_def Let_def)
  next
    case False
    with f have "\<lfloor>x\<rfloor> + 1 \<le> \<lfloor>y\<rfloor>" by simp
    with hi [of x] lo [of y] show ?thesis by linarith
  qed
qed

lemma round_half_even_nearest: "\<bar>of_int (round_half_even x) - x\<bar> \<le> 1 / 2"
  unfolding round_half_even_def Let_def by (auto; linarith)

lemma round_double_0 [simp]: "round_double 0 = 0"
  by (simp add: round_double_def)

lemma round_double_minus: "round_double (- x) = - round_double x"
  by (simp add: round_double_def Let_def sgn_minus)

lemma round_double_pos:
  "0 < x \<Longrightarrow> round_double x =
     of_int (round_half_even (x / pow2 (ilog2 x - 52))) * pow2 (ilog2 x - 52)"
  by (simp add: round_double_def Let_def)

lemma round_double_binade:
  assumes "pow2 k \<le> x" "x < pow2 (k + 1)"
  shows "round_double x = of_int (round_half_even (x / pow2 (k - 52))) * pow2 (k - 52)"
proof -
  from assms(1) have "0 < x" using pow2_pos [of k] by linarith
  with ilog2_unique [OF assms] show ?thesis
    by (simp add: round_double_pos)
qed

lemma pow2_split: "pow2 k = pow2 52 * pow2 (k - 52)"
  using pow2_add [of 52 "k - 52"] by simp

lemma pow2_split': "pow2 (k + 1) = pow2 53 * pow2 (k - 52)"
  using pow2_add [of 53 "k - 52"] by (simp add: add.commute)

lemma round_double_range:
  assumes "pow2 k \<le> x" "x < pow2 (k + 1)"
  shows "pow2 k \<le> round_double x" and "round_double x \<le> pow2 (k + 1)"
proof -
  let ?s = "pow2 (k - 52)"
  have s: "0 < ?s" by simp
  from assms(1) have "pow2 52 * ?s \<le> x" by (simp only: pow2_split [symmetric])
  with s have "pow2 52 \<le> x / ?s" by (simp add: pos_le_divide_eq)
  then have "round_half_even (pow2 52) \<le> round_half_even (x / ?s)"
    by (rule round_half_even_mono)
  moreover have "pow2 52 = of_int (2 ^ 52)" by (simp add: pow2_def)
  ultimately have "2 ^ 52 \<le> round_half_even (x / ?s)"
    by (simp only: round_half_even_of_int)
  then have "real_of_int (2 ^ 52) \<le> of_int (round_half_even (x / ?s))"
    by (simp only: of_int_le_iff)
  then have "pow2 52 \<le> of_int (round_half_even (x / ?s))" by (simp add: pow2_def)
  with s have "pow2 52 * ?s \<le> of_int (round_half_even (x / ?s)) * ?s"
    by (simp only: mult_le_cancel_right_pos)
  then show "pow2 k \<le> round_double x"
    by (simp only: pow2_split [symmetric] round_double_binade [OF assms])
  from assms(2) have "x < pow2 53 * ?s" by (simp only: pow2_split' [symmetric])
  with s have "x / ?s \<le> pow2 53" by (simp add: pos_divide_le_eq)
  then have "round_half_even (x / ?s) \<le> round_half_even (pow2 53)"
    by (rule round_half_even_mono)
  moreover have "pow2 53 = of_int (2 ^ 53)" by (simp add: pow2_def)
  ultimately have "round_half_even (x / ?s) \<le> 2 ^ 53"
    by (simp only: round_half_even_of_int)
  then have "of_int (round_half_even (x / ?s)) \<le> real_of_int (2 ^ 53)"
    by (simp only: of_int_le_iff)
  then have "of_int (round_half_even (x / ?s)) \<le> pow2 53" by (simp add: pow2_def)
  with s have "of_int (round_half_even (x / ?s)) * ?s \<le> pow2 53 * ?s"
    by (simp only: mult_le_cancel_right_pos)
  then show "round_double x \<le> pow2 (k + 1)"
    by (simp only: pow2_split' [symmetric] round_double_binade [OF assms])
qed

lemma round_double_pos_mono:
  assumes "0 < x" "x \<le> y"
  shows "round_double x \<le> round_double y"
proof -
  from assms have y: "0 < y" by simp
  note bx = ilog2_bounds [OF assms(1)] and bY = ilog2_bounds [OF y]
  from bx(1) assms(2) bY(2) have "pow2 (ilog2 x) < pow2 (ilog2 y + 1)" by linarith
  then have le: "ilog2 x \<le> ilog2 y" by simp
  show ?thesis
  proof (cases "ilog2 x = ilog2 y")
    case True
    let ?s = "pow2 (ilog2 y - 52)"
    have "x / ?s \<le> y / ?s"
      using assms(2) by (intro divide_right_mono) (simp_all add: less_imp_le)
    then have "round_half_even (x / ?s) \<le> round_half_even (y / ?s)"
      by (rule round_half_even_mono)
    then have "real_of_int (round_half_even (x / ?s)) * ?s \<le> of_int (round_half_even (y / ?s)) * ?s"
      by (simp add: mult_right_mono)
    with True show ?thesis
      by (simp add: round_double_pos assms(1) y)
  next
    case False
    with le have "ilog2 x + 1 \<le> ilog2 y" by simp
    then have "pow2 (ilog2 x + 1) \<le> pow2 (ilog2 y)" by simp
    with round_double_range(2) [OF bx] round_double_range(1) [OF bY] show ?thesis
      by linarith
  qed
qed

lemma round_double_nonneg: "0 \<le> x \<Longrightarrow> 0 \<le> round_double x"
proof (cases "x = 0")
  case False
  assume "0 \<le> x"
  with False have x: "0 < x" by simp
  from round_double_range(1) [OF ilog2_bounds [OF x]] pow2_pos [of "ilog2 x"]
  show ?thesis by linarith
qed simp

lemma round_double_mono: "x \<le> y \<Longrightarrow> round_double x \<le> round_double y"
proof -
  assume xy: "x \<le> y"
  consider "0 < x" | "x \<le> 0" "0 \<le> y" | "y < 0" by linarith
  then show ?thesis
  proof cases
    case 1
    from 1 xy show ?thesis by (rule round_double_pos_mono)
  next
    case 2
    from 2(1) have "0 \<le> round_double (- x)" by (intro round_double_nonneg) simp
    then have "round_double x \<le> 0" by (simp add: round_double_minus)
    with round_double_nonneg [OF 2(2)] show ?thesis by linarith
  next
    case 3
    with xy have "0 < - y" "- y \<le> - x" by simp_all
    then have "round_double (- y) \<le> round_double (- x)" by (rule round_double_pos_mono)
    then show ?thesis by (simp add: round_double_minus)
  qed
qed


text \<open>Numbers with a significand of at most 53 bits are not changed by the rounding.\<close>

lemma round_double_repr_pos:
  assumes "0 < m" "m \<le> 2 ^ 53"
  shows "round_double (of_int m * pow2 e) = of_int m * pow2 e"
proof -
  let ?x = "of_int m * pow2 e"
  let ?k = "ilog2 ?x"
  from assms(1) have x: "0 < ?x" by simp
  note b = ilog2_bounds [OF x]
  have "\<exists>j. ?x / pow2 (?k - 52) = of_int j"
  proof (cases "m = 2 ^ 53")
    case True
    then have "?x = pow2 53 * pow2 e" by (simp add: pow2_def)
    then have eq: "?x = pow2 (e + 53)" by (simp add: pow2_add add.commute)
    then have "pow2 (e + 53) \<le> ?x" "?x < pow2 (e + 53 + 1)" by simp_all
    then have "?k = e + 53" by (rule ilog2_unique)
    then have "?x / pow2 (?k - 52) = pow2 (e + 53) / pow2 (e + 1)"
      using eq by (simp add: add.commute)
    also have "pow2 (e + 53) = pow2 52 * pow2 (e + 1)"
      using pow2_add [of 52 "e + 1"] by (simp add: add.commute)
    finally have "?x / pow2 (?k - 52) = of_int (2 ^ 52)" by (simp add: pow2_def)
    then show ?thesis ..
  next
    case False
    with assms(2) have "m + 1 \<le> 2 ^ 53" by simp
    then have "real_of_int (m + 1) \<le> real_of_int (2 ^ 53)" by (simp only: of_int_le_iff)
    then have "real_of_int m < pow2 53" by (simp add: pow2_def)
    then have "?x < pow2 53 * pow2 e" by simp
    then have "?x < pow2 (e + 53)" by (simp add: pow2_add add.commute)
    with b(1) have "pow2 ?k < pow2 (e + 53)" by linarith
    then have d: "0 \<le> e - (?k - 52)" by simp
    have "?x / pow2 (?k - 52) = of_int m * (pow2 e / pow2 (?k - 52))" by simp
    also have "\<dots> = of_int m * pow2 (e - (?k - 52))" by (simp only: pow2_diff)
    also have "\<dots> = of_int (m * 2 ^ nat (e - (?k - 52)))"
      using d by (simp add: pow2_nat)
    finally show ?thesis ..
  qed
  then obtain j where j: "?x / pow2 (?k - 52) = of_int j" ..
  then have "of_int (round_half_even (?x / pow2 (?k - 52))) * pow2 (?k - 52)
      = (?x / pow2 (?k - 52)) * pow2 (?k - 52)"
    by (simp only: round_half_even_of_int)
  also have "\<dots> = ?x" by simp
  finally show ?thesis
    by (simp only: round_double_pos [OF x])
qed

lemma round_double_repr:
  assumes "\<bar>m\<bar> \<le> 2 ^ 53"
  shows "round_double (of_int m * pow2 e) = of_int m * pow2 e"
proof -
  consider "m = 0" | "0 < m" | "m < 0" by linarith
  then show ?thesis
  proof cases
    case 1
    then show ?thesis by simp
  next
    case 2
    with assms show ?thesis by (intro round_double_repr_pos) simp_all
  next
    case 3
    with assms have "round_double (of_int (- m) * pow2 e) = of_int (- m) * pow2 e"
      by (intro round_double_repr_pos) simp_all
    then have "round_double (- (of_int m * pow2 e)) = - (of_int m * pow2 e)" by simp
    then show ?thesis by (simp only: round_double_minus neg_equal_iff_equal)
  qed
qed

lemma round_double_of_int: "\<bar>m\<bar> \<le> 2 ^ 53 \<Longrightarrow> round_double (of_int m) = of_int m"
  using round_double_repr [of m 0] by simp

lemma round_double_numeral [simp]:
  "numeral k \<le> (2::int) ^ 53 \<Longrightarrow> round_double (numeral k) = numeral k"
  "numeral k \<le> (2::int) ^ 53 \<Longrightarrow> round_double (- numeral k) = - numeral k"
  using round_double_of_int [of "numeral k"] round_double_of_int [of "- numeral k"]
  by simp_all

lemma round_double_1 [simp]: "round_double 1 = 1" "round_double (- 1) = - 1"
  using round_double_of_int [of 1] round_double_of_int [of "- 1"] by simp_all

lemma round_double_idem: "round_double (round_double x) = round_double x"
proof -
  have pos: "round_double (round_double x) = round_double x" if "0 < x" for x
  proof -
    let ?m = "round_half_even (x / pow2 (ilog2 x - 52))"
    note b = ilog2_bounds [OF that]
    from round_double_range [OF b] have r: "pow2 (ilog2 x) \<le> round_double x"
      "round_double x \<le> pow2 (ilog2 x + 1)" .
    have eq: "round_double x = of_int ?m * pow2 (ilog2 x - 52)"
      by (rule round_double_pos [OF that])
    from r(1) pow2_pos [of "ilog2 x"] have "0 < round_double x" by linarith
    then have "0 < real_of_int ?m * pow2 (ilog2 x - 52)" by (simp only: eq)
    then have "0 < real_of_int ?m" by (rule zero_less_mult_pos2) simp
    then have m: "0 < ?m" by simp
    from r(2) have "of_int ?m * pow2 (ilog2 x - 52) \<le> pow2 53 * pow2 (ilog2 x - 52)"
      unfolding eq by (simp only: pow2_split')
    then have "real_of_int ?m \<le> pow2 53" by simp
    then have "real_of_int ?m \<le> real_of_int (2 ^ 53)" by (simp add: pow2_def)
    then have "?m \<le> 2 ^ 53" by (simp only: of_int_le_iff)
    with m show ?thesis unfolding eq by (rule round_double_repr_pos)
  qed
  consider "x = 0" | "0 < x" | "x < 0" by linarith
  then show ?thesis
  proof cases
    case 3
    then have "round_double (round_double (- x)) = round_double (- x)" by (intro pos) simp
    then show ?thesis by (simp add: round_double_minus)
  qed (simp_all add: pos)
qed

subsection \<open>The aggregation loop\<close>

lemma get_min_max_pitch_eq:
  "get_min_max_pitch pm =
     (if track_pitches pm = [] then Inl EmptyTrackError
      else Inr (Min (set (track_pitches pm)), Max (set (track_pitches pm))))"
proof -
  have "get_min_max_pitch pm =
     (case track_pitches pm of [] \<Rightarrow> Inl EmptyTrackError
      | p # ps \<Rightarrow> Inr (fold min ps p, fold max ps p))"
    by (simp add: get_min_max_pitch_def track_pitches_def)
  then show ?thesis
    by (cases "track_pitches pm")
       (simp_all add: Min.set_eq_fold [symmetric] Max.set_eq_fold [symmetric] del: set_simps)
qed

lemma report_loop_ok:
  "\<forall>pm\<in>set pms. (\<exists>t. estimate_tempo pm = Inr t) \<and>
      key_signature_changes pm \<noteq> [] \<and> track_pitches pm \<noteq> [] \<Longrightarrow>
   report_loop pms (ts, ks, mxs, mns) =
     Inr (ts @ map (\<lambda>pm. projr (estimate_tempo pm)) pms,
          ks @ map (\<lambda>pm. key_number (hd (key_signature_changes pm))) pms,
          mxs @ map (\<lambda>pm. Max (set (track_pitches pm))) pms,
          mns @ map (\<lambda>pm. Min (set (track_pitches pm))) pms)"
proof (induction pms arbitrary: ts ks mxs mns)
  case Nil
  then show ?case by simp
next
  case (Cons pm pms)
  then show ?case
    by (cases "key_signature_changes pm") (auto simp: get_min_max_pitch_eq)
qed

lemma report_loop_InrD:
  "report_loop pms (ts, ks, mxs, mns) = Inr r \<Longrightarrow>
   \<forall>pm\<in>set pms. (\<exists>t. estimate_tempo pm = Inr t) \<and>
      key_signature_changes pm \<noteq> [] \<and> track_pitches pm \<noteq> []"
proof (induction pms arbitrary: ts ks mxs mns)
  case Nil
  then show ?case by simp
next
  case (Cons pm pms)
  then show ?case
    by (cases "estimate_tempo pm"; cases "key_signature_changes pm";
        cases "track_pitches pm = []")
       (auto simp: get_min_max_pitch_eq)
qed

lemma report_loop_empty_track:
  "\<forall>pm\<in>set pms. (\<exists>t. estimate_tempo pm = Inr t) \<and> key_signature_changes pm \<noteq> [] \<Longrightarrow>
   \<exists>pm\<in>set pms. track_pitches pm = [] \<Longrightarrow>
   report_loop pms (ts, ks, mxs, mns) = Inl EmptyTrackError"
proof (induction pms arbitrary: ts ks mxs mns)
  case Nil
  then show ?case by simp
next
  case (Cons pm pms)
  show ?case
  proof (cases "track_pitches pm = []")
    case True
    with Cons.prems show ?thesis
      by (cases "key_signature_changes pm") (auto simp: get_min_max_pitch_eq)
  next
    case False
    with Cons.prems have "\<exists>pm\<in>set pms. track_pitches pm = []" by auto
    with Cons.prems Cons.IH False show ?thesis
      by (cases "key_signature_changes pm") (auto simp: get_min_max_pitch_eq)
  qed
qed

lemma counter_add_not_Nil: "counter_add k d \<noteq> []"
  by (cases d) (auto split: if_splits)

lemma Counter_not_Nil: "keys \<noteq> [] \<Longrightarrow> Counter keys \<noteq> []"
  by (cases keys rule: rev_cases) (simp_all add: Counter_def counter_add_not_Nil)

lemma get_most_freq_value_ok:
  "keys \<noteq> [] \<Longrightarrow> \<exists>k. get_most_freq_value keys b = Inr k"
proof -
  assume "keys \<noteq> []"
  then have "length (sort_key (\<lambda>kv. if b then - snd kv else snd kv) keys) \<noteq> 0" by simp
  then show ?thesis
    by (cases "sort_key (\<lambda>kv. if b then - snd kv else snd kv) keys")
       (simp_all add: get_most_freq_value_def)
qed

lemma get_most_freq_value_Nil: "get_most_freq_value [] b = Inl IndexError"
  by (simp add: get_most_freq_value_def)

lemma trunc_mono: "x \<le> y \<Longrightarrow> (if 0 \<le> x then \<lfloor>x\<rfloor> else \<lceil>x\<rceil>) \<le> (if 0 \<le> y then \<lfloor>y\<rfloor> else \<lceil>y\<rceil>)"
proof -
  assume xy: "x \<le> y"
  have "\<lceil>x\<rceil> \<le> \<lfloor>y\<rfloor>" if "\<not> 0 \<le> x" "0 \<le> y"
  proof -
    from that have "\<lceil>x\<rceil> \<le> 0" by simp
    moreover from that have "0 \<le> \<lfloor>y\<rfloor>" by simp
    ultimately show ?thesis by linarith
  qed
  with xy show ?thesis
    by (auto intro: floor_mono ceiling_mono)
qed

subsection \<open>The corpus loader\<close>

lemma try_except_pass_eq:
  "try_except_pass parse path pms =
     Inr (pms @ filter single_signature (parsed_files parse [path]))"
  by (simp add: try_except_pass_def try_body_def parsed_files_def single_signature_def
      split: sum.split)

lemma parsed_files_Cons:
  "parsed_files parse (p # ps) = parsed_files parse [p] @ parsed_files parse ps"
  by (simp add: parsed_files_def)

lemma parsed_files_append:
  "parsed_files parse (ps @ qs) = parsed_files parse ps @ parsed_files parse qs"
  by (simp add: parsed_files_def)

lemma files_loop_eq:
  "files_loop parse dirPath files pms =
     Inr (pms @ filter single_signature (parsed_files parse (map (join dirPath) files)))"
proof (induction files arbitrary: pms)
  case Nil
  then show ?case by (simp add: parsed_files_def)
next
  case (Cons f fs)
  have "parsed_files parse (map (join dirPath) (f # fs)) =
        parsed_files parse [join dirPath f] @ parsed_files parse (map (join dirPath) fs)"
    by (simp add: parsed_files_def)
  then show ?case
    by (simp add: try_except_pass_eq Cons.IH)
qed

lemma walk_loop_eq:
  "walk_loop parse walk pms =
     Inr (pms @ filter single_signature (parsed_files parse (walk_paths walk)))"
proof (induction walk arbitrary: pms)
  case Nil
  then show ?case by (simp add: parsed_files_def walk_paths_def)
next
  case (Cons w ws)
  obtain dirPath dirs files where w: "w = (dirPath, dirs, files)" by (cases w) auto
  have "walk_paths (w # ws) = map (join dirPath) files @ walk_paths ws"
    by (simp add: walk_paths_def w)
  then show ?case
    by (simp add: w files_loop_eq Cons.IH parsed_files_append)
qed

text \<open>
  Claim C4.  The loader returns, in the order of the traversal, the files that parse and
  have exactly one key signature and exactly one time signature: a parsed file is
  retained if and only if both counts are one, and every other file is dropped without
  an error.
\<close>

theorem file_filter_retains_single_signature:
  "file_filter parse walk =
     Inr (filter single_signature (parsed_files parse (walk_paths walk)))
   \<and> (single_signature pm \<longleftrightarrow>
        length (key_signature_changes pm) = 1 \<and> length (time_signature_changes pm) = 1)
   \<and> (file_filter parse walk = Inr pms \<longrightarrow>
        (pm \<in> set pms \<longleftrightarrow>
           (\<exists>path \<in> set (walk_paths walk). parse path = Inr pm) \<and>
           length (key_signature_changes pm) = 1 \<and> length (time_signature_changes pm) = 1))"
proof -
  have "pm \<in> set (parsed_files parse ps) \<longleftrightarrow> (\<exists>path \<in> set ps. parse path = Inr pm)" for ps
    by (induction ps) (auto simp: parsed_files_def split: sum.splits)
  then show ?thesis
    by (auto simp: file_filter_def walk_loop_eq single_signature_def)
qed

lemma example_paths:
  "walk_paths example_walk =
     [''corpus/a.mid'', ''corpus/b.mid'', ''corpus/x.txt'', ''corpus/c.mid'', ''corpus/d.mid'']"
  by (simp add: walk_paths_def example_walk_def join_def)

lemma example_single_signature:
  "single_signature track_a" "single_signature track_b" "single_signature track_c"
  "single_signature track_d" "single_signature track_two_tempos"
  "\<not> single_signature track_two_keys" "single_signature track_silent"
  by (simp_all add: single_signature_def track_a_def track_b_def track_c_def track_d_def
      track_two_tempos_def track_two_keys_def track_silent_def example_track_def)

lemma example_file_filter:
  "file_filter example_parse example_walk = Inr [track_a, track_b, track_c, track_d]"
  by (simp add: file_filter_def walk_loop_eq example_paths parsed_files_def example_parse_def
      example_single_signature)

theorem file_filter_retains_single_signature_witness:
  "file_filter example_parse example_walk = Inr [track_a, track_b, track_c, track_d]
   \<and> track_c \<in> set [track_a, track_b, track_c, track_d]
   \<and> example_parse ''corpus/c.mid'' = Inr track_c
   \<and> length (key_signature_changes track_c) = 1
   \<and> length (time_signature_changes track_c) = 1"
proof -
  have ff: "file_filter example_parse example_walk = Inr [track_a, track_b, track_c, track_d]"
    by (rule example_file_filter)
  have "track_c \<in> set [track_a, track_b, track_c, track_d]" by simp
  with ff file_filter_retains_single_signature
    [of example_parse example_walk track_c "[track_a, track_b, track_c, track_d]"]
  have "length (key_signature_changes track_c) = 1 \<and> length (time_signature_changes track_c) = 1"
    by blast
  moreover have "example_parse ''corpus/c.mid'' = Inr track_c"
    by (simp add: example_parse_def)
  ultimately show ?thesis using ff by simp
qed

text \<open>
  Claim C5.  The loader does not look at the tempo declarations: a file with one key
  signature, one time signature and two tempo declarations is retained, although the
  comments and the docstring of \<open>_file_filter\<close> say that only files with one tempo are
  allowed.
\<close>

theorem file_filter_keeps_two_tempos:
  "file_filter example_parse [(''corpus'', [], [''t.mid''])] = Inr [track_two_tempos]
   \<and> example_parse ''corpus/t.mid'' = Inr track_two_tempos
   \<and> length (tempo_changes track_two_tempos) = 2"
  by (simp add: file_filter_def walk_loop_eq walk_paths_def join_def parsed_files_def
      example_parse_def example_single_signature)
     (simp add: track_two_tempos_def example_track_def)

text \<open>
  Claim C10.  The loader returns a list for every parser and every directory tree.  An
  exception in the body of the \<open>try\<close> leaves the list as it was, and the loop goes on
  with the next file.  When no file parses, and when there is no file, the list is empty.
\<close>

theorem file_filter_never_raises:
  "(\<exists>pms. file_filter parse walk = Inr pms)
   \<and> (\<exists>pms'. try_except_pass parse path pms = Inr pms')
   \<and> (try_body parse path pms = Inl e \<longrightarrow> try_except_pass parse path pms = Inr pms)
   \<and> (parse (join dirPath file) = Inl e \<longrightarrow>
        files_loop parse dirPath (file # files) pms = files_loop parse dirPath files pms)
   \<and> ((\<forall>path \<in> set (walk_paths walk). \<exists>e'. parse path = Inl e') \<longrightarrow>
        file_filter parse walk = Inr [])
   \<and> file_filter parse [] = Inr []"
proof -
  have "parsed_files parse ps = []" if "\<forall>path \<in> set ps. \<exists>e'. parse path = Inl e'" for ps
    using that by (induction ps) (auto simp: parsed_files_def)
  moreover have "walk_paths [] = []"
    by (simp add: walk_paths_def)
  ultimately show ?thesis
    by (auto simp: file_filter_def walk_loop_eq try_except_pass_def try_body_def
        parsed_files_def split: sum.splits)
qed

theorem file_filter_never_raises_witness:
  "file_filter (\<lambda>path. Inl (ParseError ''truncated file'')) example_walk = Inr []
   \<and> files_loop example_parse ''corpus'' [''x.txt'', ''c.mid''] [track_a]
       = files_loop example_parse ''corpus'' [''c.mid''] [track_a]"
proof -
  have "file_filter (\<lambda>path. Inl (ParseError ''truncated file'')) example_walk = Inr []"
    using file_filter_never_raises
      [of "\<lambda>path. Inl (ParseError ''truncated file'')" example_walk]
    by simp
  moreover have "example_parse (join ''corpus'' ''x.txt'') = Inl (ParseError ''not a MIDI file'')"
    by (simp add: example_parse_def join_def)
  then have "files_loop example_parse ''corpus'' [''x.txt'', ''c.mid''] [track_a]
       = files_loop example_parse ''corpus'' [''c.mid''] [track_a]"
    using file_filter_never_raises
      [of example_parse example_walk _ "[track_a]" "ParseError ''not a MIDI file''"
          "''corpus''" "''x.txt''" "[''c.mid'']"]
    by blast
  ultimately show ?thesis by simp
qed

subsection \<open>Aggregation of the loaded corpus\<close>

lemma track_pitches_Nil_iff:
  "track_pitches pm = [] \<longleftrightarrow> (\<forall>i \<in> set (instruments pm). notes i = [])"
  by (auto simp: track_pitches_def)

lemma file_filter_key_signature:
  "file_filter parse walk = Inr pms \<Longrightarrow> \<forall>pm\<in>set pms. key_signature_changes pm \<noteq> []"
  by (auto simp: file_filter_def walk_loop_eq single_signature_def)

lemma generate_midi_files_report_ok:
  "\<forall>pm\<in>set pms. (\<exists>t. estimate_tempo pm = Inr t) \<and>
      key_signature_changes pm \<noteq> [] \<and> track_pitches pm \<noteq> [] \<Longrightarrow>
   generate_midi_files_report pms =
     Inr \<lparr>tempos = map (\<lambda>pm. projr (estimate_tempo pm)) pms,
          freq_key = Counter (map (\<lambda>pm. key_number (hd (key_signature_changes pm))) pms),
          min_pitch = map (\<lambda>pm. Min (set (track_pitches pm))) pms,
          max_pitch = map (\<lambda>pm. Max (set (track_pitches pm))) pms\<rparr>"
  by (simp add: generate_midi_files_report_def report_loop_ok)

lemma generate_midi_files_report_InrD:
  "generate_midi_files_report pms = Inr report \<Longrightarrow>
   \<forall>pm\<in>set pms. (\<exists>t. estimate_tempo pm = Inr t) \<and>
      key_signature_changes pm \<noteq> [] \<and> track_pitches pm \<noteq> []"
  unfolding generate_midi_files_report_def
  by (cases "report_loop pms ([], [], [], [])") (auto dest: report_loop_InrD)

lemma generate_midi_files_report_empty_track:
  "\<forall>pm\<in>set pms. (\<exists>t. estimate_tempo pm = Inr t) \<and> key_signature_changes pm \<noteq> [] \<Longrightarrow>
   \<exists>pm\<in>set pms. track_pitches pm = [] \<Longrightarrow>
   generate_midi_files_report pms = Inl EmptyTrackError"
  by (simp add: generate_midi_files_report_def report_loop_empty_track)

text \<open>
  Claim C9.  When a track of the loaded corpus has no note in any of its instruments,
  the minimum of its pitches raises, and the run aborts: nothing catches an exception of
  the aggregation.  When the tempo estimates of the tracks return, so that the track
  reaches the minimum, the report, the filter and the whole run fail with that exception.
\<close>

theorem empty_track_aborts:
  assumes "file_filter parse walk = Inr pms"
    and "pm \<in> set pms"
    and "\<forall>i \<in> set (instruments pm). notes i = []"
  shows "get_min_max_pitch pm = Inl EmptyTrackError
    \<and> (\<exists>e. generate_midi_files_report pms = Inl e)
    \<and> (\<exists>e. piano_roll_filter pms = Inl e)
    \<and> (\<exists>e. main parse walk = Inl e)
    \<and> ((\<forall>pm\<in>set pms. \<exists>t. estimate_tempo pm = Inr t) \<longrightarrow>
          generate_midi_files_report pms = Inl EmptyTrackError
        \<and> piano_roll_filter pms = Inl EmptyTrackError
        \<and> main parse walk = Inl EmptyTrackError)"
proof -
  from assms(3) have empty: "track_pitches pm = []"
    by (simp add: track_pitches_Nil_iff)
  then have min: "get_min_max_pitch pm = Inl EmptyTrackError"
    by (simp add: get_min_max_pitch_eq)
  have "\<exists>e. generate_midi_files_report pms = Inl e"
  proof (cases "generate_midi_files_report pms")
    case (Inr report)
    from generate_midi_files_report_InrD [OF this] assms(2) empty show ?thesis by blast
  qed blast
  then obtain e where e: "generate_midi_files_report pms = Inl e" ..
  then have e2: "piano_roll_filter pms = Inl e"
    by (simp add: piano_roll_filter_def)
  with assms(1) have e3: "main parse walk = Inl e"
    by (simp add: main_def)
  have "e = EmptyTrackError" if "\<forall>pm\<in>set pms. \<exists>t. estimate_tempo pm = Inr t"
  proof -
    from assms(1) have "\<forall>pm\<in>set pms. key_signature_changes pm \<noteq> []"
      by (rule file_filter_key_signature)
    with that empty assms(2) have "generate_midi_files_report pms = Inl EmptyTrackError"
      by (intro generate_midi_files_report_empty_track) auto
    with e show ?thesis by simp
  qed
  with min e e2 e3 show ?thesis by auto
qed

theorem empty_track_aborts_witness:
  "file_filter example_parse [(''corpus'', [], [''b.mid'', ''s.mid''])] = Inr [track_b, track_silent]
   \<and> piano_roll_filter [track_b, track_silent] = Inl EmptyTrackError
   \<and> main example_parse [(''corpus'', [], [''b.mid'', ''s.mid''])] = Inl EmptyTrackError"
proof -
  have ff: "file_filter example_parse [(''corpus'', [], [''b.mid'', ''s.mid''])]
      = Inr [track_b, track_silent]"
    by (simp add: file_filter_def walk_loop_eq walk_paths_def join_def parsed_files_def
        example_parse_def example_single_signature)
  have "\<forall>i \<in> set (instruments track_silent). notes i = []"
    by (simp add: track_silent_def example_track_def)
  moreover have "\<forall>pm\<in>set [track_b, track_silent]. \<exists>t. estimate_tempo pm = Inr t"
    by (simp add: track_b_def track_silent_def example_track_def)
  ultimately show ?thesis
    using ff empty_track_aborts
      [of example_parse "[(''corpus'', [], [''b.mid'', ''s.mid''])]" "[track_b, track_silent]"
        track_silent]
    by simp
qed

subsection \<open>The float sum\<close>

lemma foldl_add_mono:
  "list_all2 (\<le>) xs ys \<Longrightarrow> r \<le> r' \<Longrightarrow>
   foldl (\<lambda>res x. round_double (res + x)) r xs \<le> foldl (\<lambda>res x. round_double (res + x)) r' ys"
proof (induction xs ys arbitrary: r r' rule: list_all2_induct)
  case Nil
  then show ?case by simp
next
  case (Cons x xs y ys)
  from Cons.hyps(1) Cons.prems have "round_double (r + x) \<le> round_double (r' + y)"
    by (intro round_double_mono) simp
  then show ?case by (simp add: Cons.IH)
qed

lemma foldl_index_mono:
  "\<forall>i\<in>set idx. f i \<le> g i \<Longrightarrow> r \<le> r' \<Longrightarrow>
   foldl (\<lambda>r i. round_double (r + f i)) r idx \<le> foldl (\<lambda>r i. round_double (r + g i)) r' idx"
proof (induction idx arbitrary: r r')
  case Nil
  then show ?case by simp
next
  case (Cons i idx)
  from Cons.prems have "round_double (r + f i) \<le> round_double (r' + g i)"
    by (intro round_double_mono) simp
  with Cons.prems show ?case by (simp add: Cons.IH)
qed

lemma lane_index: "i \<in> set (map (\<lambda>q. 8 * q) [1..<m div 8]) \<Longrightarrow> j < 8 \<Longrightarrow> i + j < m"
  by auto

lemma lane_mono:
  assumes "list_all2 (\<le>) a b" "m \<le> length a" "8 \<le> m" "j < 8"
  shows "lane a m j \<le> lane b m j"
  unfolding lane_def
proof (rule foldl_index_mono)
  from assms have "j < length a" by simp
  with assms(1) show "a ! j \<le> b ! j"
    by (rule list_all2_nthD)
  show "\<forall>i\<in>set (map (\<lambda>q. 8 * q) [1..<m div 8]). a ! (i + j) \<le> b ! (i + j)"
  proof
    fix i assume "i \<in> set (map (\<lambda>q. 8 * q) [1..<m div 8])"
    from this assms(4) have "i + j < m" by (rule lane_index)
    with assms(2) have "i + j < length a" by simp
    with assms(1) show "a ! (i + j) \<le> b ! (i + j)"
      by (rule list_all2_nthD)
  qed
qed

lemma pairwise_sum_mono:
  "list_all2 (\<le>) a b \<Longrightarrow> pairwise_sum a \<le> pairwise_sum b"
proof (induction a arbitrary: b rule: pairwise_sum.induct)
  case (1 a)
  from "1.prems" have len: "length b = length a"
    by (simp add: list_all2_lengthD)
  show ?case
  proof (cases "length a < 8")
    case True
    with "1.prems" len show ?thesis
      by (simp add: pairwise_sum.simps [of a] pairwise_sum.simps [of b] foldl_add_mono)
  next
    case False
    note big = this
    show ?thesis
    proof (cases "length a \<le> 128")
      case True
      let ?m = "length a - length a mod 8"
      from big have m: "?m \<le> length a" "8 \<le> ?m"
        by (simp, presburger)
      have l: "lane a ?m j \<le> lane b ?m j" if "j < 8" for j
        using "1.prems" m that by (rule lane_mono)
      let ?res = "\<lambda>c. round_double
          (round_double (round_double (lane c ?m 0 + lane c ?m 1) +
                         round_double (lane c ?m 2 + lane c ?m 3)) +
           round_double (round_double (lane c ?m 4 + lane c ?m 5) +
                         round_double (lane c ?m 6 + lane c ?m 7)))"
      have "?res a \<le> ?res b"
        by (intro round_double_mono add_mono l) simp_all
      moreover from "1.prems" have "list_all2 (\<le>) (drop ?m a) (drop ?m b)"
        by (rule list_all2_dropI)
      ultimately have "foldl (\<lambda>res x. round_double (res + x)) (?res a) (drop ?m a)
          \<le> foldl (\<lambda>res x. round_double (res + x)) (?res b) (drop ?m b)"
        by (intro foldl_add_mono)
      with big True len show ?thesis
        by (simp add: pairwise_sum.simps [of a] pairwise_sum.simps [of b] Let_def)
    next
      case False
      let ?h = "half8 (length a)"
      from "1.prems" have "list_all2 (\<le>) (take ?h a) (take ?h b)"
        "list_all2 (\<le>) (drop ?h a) (drop ?h b)"
        by (simp_all add: list_all2_takeI list_all2_dropI)
      with "1.IH" big False have "pairwise_sum (take ?h a) \<le> pairwise_sum (take ?h b)"
        "pairwise_sum (drop ?h a) \<le> pairwise_sum (drop ?h b)"
        by simp_all
      then have "round_double (pairwise_sum (take ?h a) + pairwise_sum (drop ?h a))
          \<le> round_double (pairwise_sum (take ?h b) + pairwise_sum (drop ?h b))"
        by (intro round_double_mono add_mono)
      with big False len show ?thesis
        by (simp add: pairwise_sum.simps [of a] pairwise_sum.simps [of b])
    qed
  qed
qed

lemma np_sum_mono: "list_all2 (\<le>) a b \<Longrightarrow> np_sum a \<le> np_sum b"
  unfolding np_sum_def by (intro round_double_mono add_mono pairwise_sum_mono) simp_all

lemma round_double_length_pos: "xs \<noteq> [] \<Longrightarrow> 0 < round_double (real (length xs))"
proof -
  assume "xs \<noteq> []"
  then have "1 \<le> real (length xs)" by (cases xs) simp_all
  then have "round_double 1 \<le> round_double (real (length xs))" by (rule round_double_mono)
  then show ?thesis by simp
qed

text \<open>Sums of small integers are exact.\<close>

lemma round_double_add_int:
  "\<bar>i + j\<bar> \<le> 2 ^ 53 \<Longrightarrow> round_double (of_int i + of_int j) = of_int (i + j)"
  using round_double_of_int [of "i + j"] by simp

lemma foldl_add_const:
  "0 \<le> i \<Longrightarrow> 0 \<le> c \<Longrightarrow> i + c * int k \<le> 2 ^ 53 \<Longrightarrow>
   foldl (\<lambda>res x. round_double (res + x)) (of_int i) (replicate k (of_int c))
     = of_int (i + c * int k)"
proof (induction k arbitrary: i)
  case 0
  then show ?case by simp
next
  case (Suc k)
  from Suc.prems have le: "i + c \<le> i + c * int (Suc k)"
    by (simp add: algebra_simps)
  with Suc.prems have "\<bar>i + c\<bar> \<le> 2 ^ 53" by simp
  then have "round_double (of_int i + of_int c) = of_int (i + c)"
    by (rule round_double_add_int)
  moreover from Suc.prems have "foldl (\<lambda>res x. round_double (res + x)) (of_int (i + c))
      (replicate k (of_int c)) = of_int ((i + c) + c * int k)"
    by (intro Suc.IH) (simp_all add: algebra_simps)
  ultimately show ?case by (simp add: algebra_simps)
qed

lemma foldl_index_const:
  "\<forall>q\<in>set idx. f q = of_int c \<Longrightarrow> 0 \<le> i \<Longrightarrow> 0 \<le> c \<Longrightarrow>
   i + c * int (length idx) \<le> 2 ^ 53 \<Longrightarrow>
   foldl (\<lambda>r q. round_double (r + f q)) (of_int i) idx = of_int (i + c * int (length idx))"
proof (induction idx arbitrary: i)
  case Nil
  then show ?case by simp
next
  case (Cons q idx)
  from Cons.prems have le: "i + c \<le> i + c * int (length (q # idx))"
    by (simp add: algebra_simps)
  with Cons.prems have "\<bar>i + c\<bar> \<le> 2 ^ 53" by simp
  then have "round_double (of_int i + of_int c) = of_int (i + c)"
    by (rule round_double_add_int)
  moreover from Cons.prems have "foldl (\<lambda>r q. round_double (r + f q)) (of_int (i + c)) idx
      = of_int ((i + c) + c * int (length idx))"
    by (intro Cons.IH) (simp_all add: algebra_simps)
  ultimately show ?case using Cons.prems(1) by (simp add: algebra_simps)
qed

lemma lane_const:
  assumes "8 \<le> m" "m \<le> n" "j < 8" "0 \<le> c" "c * int (m div 8) \<le> 2 ^ 53"
  shows "lane (replicate n (of_int c)) m j = of_int (c * int (m div 8))"
proof -
  let ?idx = "map (\<lambda>q. 8 * q) [1..<m div 8]"
  from assms(1) have d: "1 \<le> m div 8" by presburger
  then have len: "int (length ?idx) = int (m div 8) - 1" by simp
  have cell: "replicate n (real_of_int c) ! (i + j) = of_int c" if "i \<in> set ?idx" for i
  proof -
    from that assms(3) have "i + j < m" by (rule lane_index)
    with assms(2) show ?thesis by simp
  qed
  from assms(1-3) have first: "replicate n (real_of_int c) ! j = of_int c" by simp
  have total: "c + c * int (length ?idx) = c * int (m div 8)"
    by (simp only: len) (simp add: algebra_simps)
  have "foldl (\<lambda>r i. round_double (r + replicate n (real_of_int c) ! (i + j))) (of_int c) ?idx
      = of_int (c + c * int (length ?idx))"
    using cell assms(4,5) by (intro foldl_index_const ballI) (simp_all only: total)
  then show ?thesis
    by (simp only: lane_def first total)
qed

lemma pairwise_sum_const:
  "0 \<le> c \<Longrightarrow> c * int n \<le> 2 ^ 53 \<Longrightarrow>
   pairwise_sum (replicate n (of_int c)) = of_int (c * int n)"
proof (induction n rule: less_induct)
  case (less n)
  have part: "c * int k \<le> 2 ^ 53" if "k \<le> n" for k
  proof -
    from that less.prems(1) have "c * int k \<le> c * int n"
      by (intro mult_left_mono) simp_all
    with less.prems(2) show ?thesis by simp
  qed
  show ?case
  proof (cases "n < 8")
    case True
    from foldl_add_const [of 0 c n] less.prems show ?thesis
      by (simp add: pairwise_sum.simps [of "replicate n (of_int c)"] True)
  next
    case False
    note big = this
    show ?thesis
    proof (cases "n \<le> 128")
      case True
      let ?m = "n - n mod 8"
      let ?L = "c * int (?m div 8)"
      from big have m: "8 \<le> ?m" "?m \<le> n" by presburger+
      have "?m div 8 \<le> n" by simp
      then have L: "?L \<le> 2 ^ 53" by (rule part)
      have lane: "lane (replicate n (of_int c)) ?m j = of_int ?L" if "j < 8" for j
        using m that less.prems(1) L by (rule lane_const)
      have m8: "int ?m = 8 * int (?m div 8)" by presburger
      have cm: "c * int ?m = 8 * ?L" by (simp only: m8)
      from part [of ?m] m(2) have L8: "8 * ?L \<le> 2 ^ 53" by (simp only: cm)
      from less.prems(1) have L0: "0 \<le> ?L" by simp
      have two: "round_double (of_int ?L + of_int ?L) = of_int (2 * ?L)"
        using round_double_add_int [of ?L ?L] L0 L8 by simp
      have four: "round_double (of_int (2 * ?L) + of_int (2 * ?L)) = of_int (4 * ?L)"
        using round_double_add_int [of "2 * ?L" "2 * ?L"] L0 L8 by simp
      have eight: "round_double (of_int (4 * ?L) + of_int (4 * ?L)) = of_int (8 * ?L)"
        using round_double_add_int [of "4 * ?L" "4 * ?L"] L0 L8 by simp
      have rest: "drop ?m (replicate n (real_of_int c)) = replicate (n mod 8) (of_int c)"
        by simp
      have "c * int n = 8 * ?L + c * int (n mod 8)"
      proof -
        have "int n = int ?m + int (n mod 8)" by simp
        then have "c * int n = c * int ?m + c * int (n mod 8)"
          by (simp only: distrib_left)
        then show ?thesis by (simp only: cm)
      qed
      with less.prems(2) have "8 * ?L + c * int (n mod 8) \<le> 2 ^ 53" by simp
      with L0 less.prems(1)
      have "foldl (\<lambda>res x. round_double (res + x)) (of_int (8 * ?L))
          (replicate (n mod 8) (of_int c)) = of_int (8 * ?L + c * int (n mod 8))"
        by (intro foldl_add_const) simp_all
      also have "\<dots> = of_int (c * int n)"
        using \<open>c * int n = 8 * ?L + c * int (n mod 8)\<close> by simp
      finally show ?thesis
        using big True
        by (simp only: pairwise_sum.simps [of "replicate n (of_int c)"] length_replicate
            if_False if_True Let_def lane two four eight rest)
    next
      case False
      let ?h = "half8 n"
      from False have h: "0 < ?h" "?h < n" by (simp_all add: half8_def)
      have parts: "take ?h (replicate n (real_of_int c)) = replicate ?h (of_int c)"
        "drop ?h (replicate n (real_of_int c)) = replicate (n - ?h) (of_int c)"
        using h by (simp_all add: min_def)
      from h have "c * int ?h \<le> 2 ^ 53" by (intro part) simp
      with h less.prems(1)
      have a: "pairwise_sum (replicate ?h (of_int c)) = of_int (c * int ?h)"
        by (intro less.IH)
      have "c * int (n - ?h) \<le> 2 ^ 53" by (intro part) simp
      moreover from h have "n - ?h < n" by simp
      ultimately have b: "pairwise_sum (replicate (n - ?h) (of_int c))
          = of_int (c * int (n - ?h))"
        using less.prems(1) by (intro less.IH)
      have "c * int ?h + c * int (n - ?h) = c * int n"
      proof -
        from h have "int n = int ?h + int (n - ?h)" by simp
        then show ?thesis by (simp only: distrib_left)
      qed
      moreover from this less.prems have "\<bar>c * int ?h + c * int (n - ?h)\<bar> \<le> 2 ^ 53" by simp
      ultimately have "round_double (of_int (c * int ?h) + of_int (c * int (n - ?h)))
          = of_int (c * int n)"
        using round_double_add_int [of "c * int ?h" "c * int (n - ?h)"] by simp
      with big False show ?thesis
        by (simp only: pairwise_sum.simps [of "replicate n (of_int c)"] length_replicate
            if_False parts a b)
    qed
  qed
qed

subsection \<open>The aggregates\<close>

lemma pairwise_sum_small:
  "length a < 8 \<Longrightarrow> pairwise_sum a = foldl (\<lambda>res x. round_double (res + x)) 0 a"
  by (simp add: pairwise_sum.simps [of a])

lemma mean_mono:
  assumes "xs \<noteq> []" "list_all2 (\<le>) xs ys"
  shows "round_double (np_sum xs / round_double (real (length xs)))
       \<le> round_double (np_sum ys / round_double (real (length ys)))"
proof -
  from assms(2) have len: "length ys = length xs" by (simp add: list_all2_lengthD)
  from assms(1) have "0 < round_double (real (length xs))" by (rule round_double_length_pos)
  with np_sum_mono [OF assms(2)] show ?thesis
    unfolding len by (intro round_double_mono divide_right_mono) simp_all
qed

lemma np_mean_int_Fin:
  "xs \<noteq> [] \<Longrightarrow>
   np_mean_int xs =
     Fin (round_double (np_sum (map (\<lambda>p. round_double (of_int p)) xs) /
                        round_double (real (length xs))))"
  by (simp add: np_mean_int_def np_mean_def)

lemma np_mean_int_mono:
  assumes "xs \<noteq> []" "list_all2 (\<le>) xs ys"
  shows "\<exists>u v. np_mean_int xs = Fin u \<and> np_mean_int ys = Fin v \<and> u \<le> v"
proof -
  let ?f = "\<lambda>p. round_double (real_of_int p)"
  from assms(2) have len: "length ys = length xs" by (simp add: list_all2_lengthD)
  with assms(1) have ys: "ys \<noteq> []" by auto
  from assms(2) have "list_all2 (\<le>) (map ?f xs) (map ?f ys)"
    by (simp add: list_all2_map1 list_all2_map2 list_all2_mono round_double_mono)
  moreover from assms(1) have "map ?f xs \<noteq> []" by simp
  ultimately have "round_double (np_sum (map ?f xs) / round_double (real (length (map ?f xs))))
       \<le> round_double (np_sum (map ?f ys) / round_double (real (length (map ?f ys))))"
    by (rule mean_mono [rotated])
  with assms(1) ys show ?thesis
    by (simp add: np_mean_int_Fin)
qed

lemma py_int_Fin_mono:
  "u \<le> v \<Longrightarrow> py_int (Fin u) = Inr l \<Longrightarrow> py_int (Fin v) = Inr h \<Longrightarrow> l \<le> h"
  using trunc_mono [of u v] by auto

lemma aggregation_report_ok:
  assumes "freq_key r \<noteq> []" "min_pitch r \<noteq> []" "max_pitch r \<noteq> []"
  shows "\<exists>k l h. aggregation_report r = Inr (np_mean (tempos r), np_std (tempos r), k, l, h)
     \<and> py_int (np_mean_int (min_pitch r)) = Inr l
     \<and> py_int (np_mean_int (max_pitch r)) = Inr h"
proof -
  from assms(1) obtain k where "get_most_freq_value (freq_key r) True = Inr k"
    using get_most_freq_value_ok by blast
  moreover from assms(2) obtain l where "py_int (np_mean_int (min_pitch r)) = Inr l"
    by (simp add: np_mean_int_Fin)
  moreover from assms(3) obtain h where "py_int (np_mean_int (max_pitch r)) = Inr h"
    by (simp add: np_mean_int_Fin)
  ultimately show ?thesis
    by (simp add: aggregation_report_def)
qed

lemma aggregation_report_InrD:
  assumes "aggregation_report r = Inr (tm, ts, key, low, high)"
  shows "freq_key r \<noteq> []"
    and "py_int (np_mean_int (min_pitch r)) = Inr low"
    and "py_int (np_mean_int (max_pitch r)) = Inr high"
    and "tm = np_mean (tempos r)" and "ts = np_std (tempos r)"
  using assms
  by (auto simp: aggregation_report_def get_most_freq_value_Nil split: sum.splits)

lemma Min_le_Max_list: "xs \<noteq> [] \<Longrightarrow> Min (set xs) \<le> Max (set xs)" for xs :: "int list"
proof -
  assume "xs \<noteq> []"
  then obtain p where "p \<in> set xs" by (cases xs) auto
  then have "Min (set xs) \<le> p" "p \<le> Max (set xs)" by simp_all
  then show ?thesis by (rule order_trans)
qed

text \<open>
  Claim C8.  Whenever the aggregation of a loaded corpus returns its bounds, the corpus
  is not empty, every track has a note, the low bound is the truncated mean of the
  lowest pitches of the tracks, the high bound the truncated mean of their highest
  pitches, and the low bound is at most the high bound.  The aggregation returns for
  every loaded corpus that is not empty and whose tracks all have a note and a tempo
  estimate.
\<close>

theorem pitch_bounds_ordered:
  assumes "file_filter parse walk = Inr pms"
  shows "(generate_midi_files_report pms = Inr report \<and>
          aggregation_report report = Inr (temp_mean, temp_std, key, low, high) \<longrightarrow>
            pms \<noteq> []
          \<and> (\<forall>pm\<in>set pms. track_pitches pm \<noteq> [] \<and>
                Min (set (track_pitches pm)) \<le> Max (set (track_pitches pm)))
          \<and> py_int (np_mean_int (map (\<lambda>pm. Min (set (track_pitches pm))) pms)) = Inr low
          \<and> py_int (np_mean_int (map (\<lambda>pm. Max (set (track_pitches pm))) pms)) = Inr high
          \<and> low \<le> high)
       \<and> (pms \<noteq> [] \<and>
          (\<forall>pm\<in>set pms. track_pitches pm \<noteq> [] \<and> (\<exists>t. estimate_tempo pm = Inr t)) \<longrightarrow>
            (\<exists>report' temp_mean' temp_std' key' low' high'.
                generate_midi_files_report pms = Inr report'
              \<and> aggregation_report report' = Inr (temp_mean', temp_std', key', low', high')
              \<and> low' \<le> high'))"
proof -
  let ?mins = "map (\<lambda>pm. Min (set (track_pitches pm))) pms"
  let ?maxs = "map (\<lambda>pm. Max (set (track_pitches pm))) pms"
  let ?r = "\<lparr>tempos = map (\<lambda>pm. projr (estimate_tempo pm)) pms,
             freq_key = Counter (map (\<lambda>pm. key_number (hd (key_signature_changes pm))) pms),
             min_pitch = ?mins, max_pitch = ?maxs\<rparr>"
  have ordered: "pms \<noteq> []
      \<and> (\<forall>pm\<in>set pms. track_pitches pm \<noteq> [] \<and>
            Min (set (track_pitches pm)) \<le> Max (set (track_pitches pm)))
      \<and> py_int (np_mean_int ?mins) = Inr l \<and> py_int (np_mean_int ?maxs) = Inr h \<and> l \<le> h"
    if gen: "generate_midi_files_report pms = Inr r"
      and agg: "aggregation_report r = Inr (tm, ts, k, l, h)" for r tm ts k l h
  proof -
    from gen have all: "\<forall>pm\<in>set pms. (\<exists>t. estimate_tempo pm = Inr t) \<and>
        key_signature_changes pm \<noteq> [] \<and> track_pitches pm \<noteq> []"
      by (rule generate_midi_files_report_InrD)
    from generate_midi_files_report_ok [OF all] gen have r: "r = ?r" by simp
    from aggregation_report_InrD [OF agg]
    have fk: "freq_key r \<noteq> []" and l: "py_int (np_mean_int ?mins) = Inr l"
      and h: "py_int (np_mean_int ?maxs) = Inr h"
      by (simp_all add: r)
    from fk have ne: "pms \<noteq> []" by (auto simp: r Counter_def)
    from all have le: "\<forall>pm\<in>set pms. track_pitches pm \<noteq> [] \<and>
        Min (set (track_pitches pm)) \<le> Max (set (track_pitches pm))"
      by (auto intro: Min_le_Max_list simp del: Min_le_iff Max_ge_iff)
    then have "list_all2 (\<le>) ?mins ?maxs"
      by (simp add: list_all2_conv_all_nth)
    with ne obtain u v where "np_mean_int ?mins = Fin u" "np_mean_int ?maxs = Fin v" "u \<le> v"
      using np_mean_int_mono [of ?mins ?maxs] by auto
    with l h have "l \<le> h"
      using py_int_Fin_mono [of u v l h] by simp
    with ne le l h show ?thesis by simp
  qed
  have returns: "\<exists>report' temp_mean' temp_std' key' low' high'.
        generate_midi_files_report pms = Inr report'
      \<and> aggregation_report report' = Inr (temp_mean', temp_std', key', low', high')
      \<and> low' \<le> high'"
    if ne: "pms \<noteq> []"
      and all: "\<forall>pm\<in>set pms. track_pitches pm \<noteq> [] \<and> (\<exists>t. estimate_tempo pm = Inr t)"
  proof -
    from assms have "\<forall>pm\<in>set pms. key_signature_changes pm \<noteq> []"
      by (rule file_filter_key_signature)
    with all have gen: "generate_midi_files_report pms = Inr ?r"
      by (intro generate_midi_files_report_ok) auto
    from ne have "freq_key ?r \<noteq> []" "min_pitch ?r \<noteq> []" "max_pitch ?r \<noteq> []"
      by (simp_all add: Counter_not_Nil)
    from aggregation_report_ok [OF this] obtain k l h where
      agg: "aggregation_report ?r = Inr (np_mean (tempos ?r), np_std (tempos ?r), k, l, h)"
      by blast
    from ordered [OF gen agg] have "l \<le> h" by simp
    with gen agg show ?thesis by blast
  qed
  from ordered returns show ?thesis by blast
qed

subsection \<open>The example corpus\<close>

lemma example_track_simps:
  "track_pitches (example_track tempo keys tcs ps n) = ps"
  "estimate_tempo (example_track tempo keys tcs ps n) = Inr tempo"
  "key_signature_changes (example_track tempo keys tcs ps n) = map (\<lambda>k. \<lparr>key_number = k\<rparr>) keys"
  "get_piano_roll (example_track tempo keys tcs ps n) =
     \<lparr>ncols = n, rows = map (\<lambda>p. map (example_cell tempo p) [0..<n]) [0..<128]\<rparr>"
  by (simp_all add: example_track_def track_pitches_def comp_def)

lemma example_min_max:
  "get_min_max_pitch track_a = Inr (40, 90)"
  "get_min_max_pitch track_b = Inr (60, 64)"
  "get_min_max_pitch track_c = Inr (62, 70)"
  "get_min_max_pitch track_d = Inr (50, 80)"
  by (simp_all add: get_min_max_pitch_eq track_a_def track_b_def track_c_def track_d_def
      example_track_simps)

lemma example_tempo:
  "estimate_tempo track_a = Inr 113" "estimate_tempo track_b = Inr 119"
  "estimate_tempo track_c = Inr 121" "estimate_tempo track_d = Inr 127"
  by (simp_all add: track_a_def track_b_def track_c_def track_d_def example_track_simps)

lemma example_report:
  "generate_midi_files_report [track_a, track_b, track_c, track_d] =
     Inr \<lparr>tempos = [113, 119, 121, 127], freq_key = [(0, 3), (7, 1)],
          min_pitch = [40, 60, 62, 50], max_pitch = [90, 64, 70, 80]\<rparr>"
proof -
  have "\<forall>pm\<in>set [track_a, track_b, track_c, track_d]. (\<exists>t. estimate_tempo pm = Inr t) \<and>
          key_signature_changes pm \<noteq> [] \<and> track_pitches pm \<noteq> []"
    by (simp add: track_a_def track_b_def track_c_def track_d_def example_track_simps)
  from generate_midi_files_report_ok [OF this] show ?thesis
    by (simp add: track_a_def track_b_def track_c_def track_d_def example_track_simps
        Counter_def)
qed

lemma example_aggregation:
  "aggregation_report
     \<lparr>tempos = [113, 119, 121, 127], freq_key = [(0, 3), (7, 1)],
      min_pitch = [40, 60, 62, 50], max_pitch = [90, 64, 70, 80]\<rparr> =
   Inr (Fin 120, Fin 5, 0, 53, 76)"
proof -
  have "sqrt 25 = 5"
    by (rule real_sqrt_unique) simp_all
  then show ?thesis
    by (simp add: aggregation_report_def get_most_freq_value_def np_mean_int_def np_mean_def
        np_std_def np_sum_def pairwise_sum_small Let_def)
qed

theorem pitch_bounds_ordered_witness:
  "\<exists>report temp_mean temp_std key.
      generate_midi_files_report [track_a, track_b, track_c, track_d] = Inr report
    \<and> aggregation_report report = Inr (temp_mean, temp_std, key, 53, 76)
    \<and> (53::int) \<le> 76"
proof -
  have "[track_a, track_b, track_c, track_d] \<noteq> []" by simp
  moreover have "\<forall>pm\<in>set [track_a, track_b, track_c, track_d].
      track_pitches pm \<noteq> [] \<and> (\<exists>t. estimate_tempo pm = Inr t)"
    by (simp add: track_a_def track_b_def track_c_def track_d_def example_track_simps)
  ultimately obtain report temp_mean temp_std key low high where
    r: "generate_midi_files_report [track_a, track_b, track_c, track_d] = Inr report"
      "aggregation_report report = Inr (temp_mean, temp_std, key, low, high)"
      "low \<le> high"
    using pitch_bounds_ordered [OF example_file_filter] by blast
  from r(1) have "report = \<lparr>tempos = [113, 119, 121, 127], freq_key = [(0, 3), (7, 1)],
      min_pitch = [40, 60, 62, 50], max_pitch = [90, 64, 70, 80]\<rparr>"
    by (simp add: example_report)
  with r(2) have "low = 53" "high = 76"
    by (simp_all add: example_aggregation)
  with r show ?thesis by blast
qed

text \<open>
  For a track whose tempo estimate raises, the aggregation raises as well and there are
  no bounds.
\<close>

lemma no_estimate_no_bounds:
  "generate_midi_files_report [track_one_note] = Inl TempoError"
  "piano_roll_filter [track_one_note] = Inl TempoError"
  by (simp_all add: piano_roll_filter_def generate_midi_files_report_def track_one_note_def)

subsection \<open>The range filter\<close>

lemma admitted_eq:
  "admitted tm ts low high pm \<longleftrightarrow>
     (\<exists>t. estimate_tempo pm = Inr t \<and> is_in_tempo_range (Fin t) tm ts) \<and>
     track_pitches pm \<noteq> [] \<and>
     is_in_pitch_range (Min (set (track_pitches pm))) (Max (set (track_pitches pm))) low high"
  by (cases "estimate_tempo pm") (auto simp: admitted_def get_min_max_pitch_eq)

lemma piano_rolls_loop_eq:
  "\<forall>pm\<in>set pms. (\<exists>t. estimate_tempo pm = Inr t) \<and> track_pitches pm \<noteq> [] \<Longrightarrow>
   piano_rolls_loop pms tm ts low high acc =
     Inr (acc @ map (\<lambda>pm. slice_rows (get_piano_roll pm) low (high + 1))
                   (filter (admitted tm ts low high) pms))"
proof (induction pms arbitrary: acc)
  case Nil
  then show ?case by simp
next
  case (Cons pm pms)
  then show ?case
    by (auto simp: admitted_eq get_min_max_pitch_eq)
qed

lemma piano_rolls_loop_single:
  assumes "estimate_tempo pm = Inr t" "track_pitches pm \<noteq> []"
  shows "piano_rolls_loop [pm] tm ts low high [] =
     (if admitted tm ts low high pm then Inr [slice_rows (get_piano_roll pm) low (high + 1)]
      else Inr [])"
proof -
  from assms have "piano_rolls_loop [pm] tm ts low high [] =
      Inr ([] @ map (\<lambda>pm. slice_rows (get_piano_roll pm) low (high + 1))
                  (filter (admitted tm ts low high) [pm]))"
    by (intro piano_rolls_loop_eq) simp
  then show ?thesis by simp
qed

lemma is_in_tempo_range_Fin:
  "is_in_tempo_range (Fin t) (Fin m) (Fin s) \<longleftrightarrow>
     round_double (m - s) < t \<and> t < round_double (m + s)"
  by (simp add: is_in_tempo_range_def)

lemma round_to_117:
  "round_double (7297238771223757 / 2 ^ 46 + 3743617190251725 / 2 ^ 48) = 117"
proof -
  let ?x = "7297238771223757 / 2 ^ 46 + 3743617190251725 / 2 ^ 48 :: real"
  have "pow2 6 \<le> ?x" "?x < pow2 (6 + 1)" by (simp_all add: pow2_def)
  from round_double_binade [OF this] show ?thesis
    by (simp add: pow2_def round_half_even_def Let_def)
qed

text \<open>
  Claim C2.  The tempo test admits a tempo exactly when it lies strictly between the two
  bounds \<open>mean - std\<close> and \<open>mean + std\<close>, each computed in double arithmetic: a tempo
  equal to either bound is excluded.  With mean 120 and deviation 10, the tempos 110 and
  130 are excluded and 115 is included.  With the doubles nearest to 103.7 and 13.3, whose
  sum rounds to 117, the tempo 117 is excluded.  In the filter loop, a track is admitted
  only with its tempo strictly inside, and a track whose tempo is at a bound or outside
  adds no piano roll.
\<close>

theorem tempo_range_open_interval:
  "(is_in_tempo_range (Fin tempo) (Fin mean) (Fin std) \<longleftrightarrow>
      round_double (mean - std) < tempo \<and> tempo < round_double (mean + std))
   \<and> \<not> is_in_tempo_range (fl_sub (Fin mean) (Fin std)) (Fin mean) (Fin std)
   \<and> \<not> is_in_tempo_range (fl_add (Fin mean) (Fin std)) (Fin mean) (Fin std)
   \<and> \<not> is_in_tempo_range (Fin 110) (Fin 120) (Fin 10)
   \<and> \<not> is_in_tempo_range (Fin 130) (Fin 120) (Fin 10)
   \<and> is_in_tempo_range (Fin 115) (Fin 120) (Fin 10)
   \<and> \<not> is_in_tempo_range (Fin 117) (Fin (7297238771223757 / 2 ^ 46))
         (Fin (3743617190251725 / 2 ^ 48))
   \<and> (admitted (Fin mean) (Fin std) low high pm \<longrightarrow>
        (\<exists>t. estimate_tempo pm = Inr t \<and>
             round_double (mean - std) < t \<and> t < round_double (mean + std)))
   \<and> (track_pitches pm \<noteq> [] \<and> estimate_tempo pm = Inr t \<and>
        (t \<le> round_double (mean - std) \<or> round_double (mean + std) \<le> t) \<longrightarrow>
        piano_rolls_loop [pm] (Fin mean) (Fin std) low high [] = Inr [])"
proof -
  have "\<not> is_in_tempo_range (Fin 117) (Fin (7297238771223757 / 2 ^ 46))
         (Fin (3743617190251725 / 2 ^ 48))"
    by (simp only: is_in_tempo_range_Fin round_to_117) simp
  moreover have "piano_rolls_loop [pm] (Fin mean) (Fin std) low high [] = Inr []"
    if "track_pitches pm \<noteq> []" "estimate_tempo pm = Inr t"
      "t \<le> round_double (mean - std) \<or> round_double (mean + std) \<le> t"
  proof -
    from that(2,3) have "\<not> admitted (Fin mean) (Fin std) low high pm"
      by (auto simp: admitted_eq is_in_tempo_range_Fin)
    with piano_rolls_loop_single [OF that(2,1)] show ?thesis by simp
  qed
  ultimately show ?thesis
    by (simp add: is_in_tempo_range_Fin admitted_eq)
qed

theorem tempo_range_open_interval_witness:
  "is_in_tempo_range (Fin 119) (Fin 120) (Fin 7)
   \<and> \<not> is_in_tempo_range (fl_add (Fin 120) (Fin 7)) (Fin 120) (Fin 7)
   \<and> estimate_tempo track_d = Inr (120 + 7)
   \<and> piano_rolls_loop [track_d] (Fin 120) (Fin 7) 45 85 [] = Inr []"
proof -
  have "track_pitches track_d \<noteq> []" "estimate_tempo track_d = Inr (120 + 7)"
    by (simp_all add: track_d_def example_track_simps)
  with tempo_range_open_interval [of 119 120 7 45 85 track_d "120 + 7"] show ?thesis
    by simp
qed

text \<open>
  Claim C3.  The pitch test admits a track exactly when its lowest pitch is at least the
  low bound and its highest pitch at most the high bound; both bounds are included.
  With the bounds 21 and 108, a track spanning 21 to 108 is included, and one whose
  lowest pitch is 20 is excluded.  In the filter loop, a track that passes the tempo test
  adds its piano roll exactly when its lowest and highest pitch are within the bounds.
\<close>

theorem pitch_range_closed_interval:
  "(is_in_pitch_range mn mx low high \<longleftrightarrow> mn \<ge> low \<and> mx \<le> high)
   \<and> is_in_pitch_range low high low high
   \<and> \<not> is_in_pitch_range (low - 1) high low high
   \<and> is_in_pitch_range 21 108 21 108
   \<and> \<not> is_in_pitch_range 20 108 21 108
   \<and> (track_pitches pm \<noteq> [] \<and> estimate_tempo pm = Inr t \<and>
        is_in_tempo_range (Fin t) tm ts \<longrightarrow>
        piano_rolls_loop [pm] tm ts low high [] =
          (if low \<le> Min (set (track_pitches pm)) \<and> Max (set (track_pitches pm)) \<le> high
           then Inr [slice_rows (get_piano_roll pm) low (high + 1)]
           else Inr []))"
proof -
  have test: "is_in_pitch_range a b l h \<longleftrightarrow> l \<le> a \<and> b \<le> h" for a b l h
    by (simp add: is_in_pitch_range_def)
  have "piano_rolls_loop [pm] tm ts low high [] =
          (if low \<le> Min (set (track_pitches pm)) \<and> Max (set (track_pitches pm)) \<le> high
           then Inr [slice_rows (get_piano_roll pm) low (high + 1)]
           else Inr [])"
    if "track_pitches pm \<noteq> []" "estimate_tempo pm = Inr t" "is_in_tempo_range (Fin t) tm ts"
  proof -
    from that have "admitted tm ts low high pm \<longleftrightarrow>
        low \<le> Min (set (track_pitches pm)) \<and> Max (set (track_pitches pm)) \<le> high"
      by (simp add: admitted_eq test del: Min_ge_iff Max_le_iff)
    with piano_rolls_loop_single [OF that(2,1)] show ?thesis
      by (simp del: Min_ge_iff Max_le_iff)
  qed
  then show ?thesis
    by (simp add: test)
qed

theorem pitch_range_closed_interval_witness:
  "is_in_pitch_range 60 64 53 76
   \<and> piano_rolls_loop [track_b] (Fin 120) (Fin 5) 60 64 [] =
       Inr [slice_rows (get_piano_roll track_b) 60 (64 + 1)]
   \<and> piano_rolls_loop [track_b] (Fin 120) (Fin 5) 61 64 [] = Inr []"
proof -
  have b: "track_pitches track_b \<noteq> []" "estimate_tempo track_b = Inr 119"
    "is_in_tempo_range (Fin 119) (Fin 120) (Fin 5)"
    "Min (set (track_pitches track_b)) = 60" "Max (set (track_pitches track_b)) = 64"
    by (simp_all add: track_b_def example_track_simps is_in_tempo_range_def)
  with pitch_range_closed_interval [of 60 64 53 76 track_b 119 "Fin 120" "Fin 5"]
  have "is_in_pitch_range 60 64 53 76" by simp
  moreover from b pitch_range_closed_interval [of 60 64 60 64 track_b 119 "Fin 120" "Fin 5"]
  have "piano_rolls_loop [track_b] (Fin 120) (Fin 5) 60 64 [] =
       Inr [slice_rows (get_piano_roll track_b) 60 (64 + 1)]" by simp
  moreover from b pitch_range_closed_interval [of 60 64 61 64 track_b 119 "Fin 120" "Fin 5"]
  have "piano_rolls_loop [track_b] (Fin 120) (Fin 5) 61 64 [] = Inr []" by simp
  ultimately show ?thesis by simp
qed

lemma zero_std_tempo_range: "\<not> is_in_tempo_range tempo mean (Fin 0)"
  by (cases tempo; cases mean) (simp_all add: is_in_tempo_range_def)

text \<open>The deviation of a single double is 0.\<close>

lemma np_std_single: "round_double t = t \<Longrightarrow> np_std [t] = Fin 0"
  by (simp add: np_std_def np_sum_def pairwise_sum_small Let_def)

lemma piano_roll_filter_none_admitted:
  assumes "generate_midi_files_report pms = Inr report"
    and "aggregation_report report = Inr (tm, ts, key, low, high)"
    and "filter (admitted tm ts low high) pms = []"
  shows "piano_rolls_loop pms tm ts low high [] = Inr []"
    and "piano_roll_filter pms = Inl EmptyCorpusError"
proof -
  from assms(1) have "\<forall>pm\<in>set pms. (\<exists>t. estimate_tempo pm = Inr t) \<and> track_pitches pm \<noteq> []"
    by (auto dest: generate_midi_files_report_InrD)
  with assms(3) show "piano_rolls_loop pms tm ts low high [] = Inr []"
    by (simp add: piano_rolls_loop_eq)
  with assms(1,2) show "piano_roll_filter pms = Inl EmptyCorpusError"
    by (simp add: piano_roll_filter_def)
qed

text \<open>
  Claim C7.  With a tempo deviation of 0 the tempo test fails for every tempo and every
  mean, so no track is admitted and the loop appends no piano roll.  A corpus of one
  track has deviation 0; when that track has a key signature, a note and a tempo
  estimate, the run ends with the exception of \<open>np.hstack\<close> on the empty list.
\<close>

theorem zero_std_admits_none:
  "\<not> is_in_tempo_range tempo mean (Fin 0)
   \<and> \<not> admitted mean (Fin 0) low high pm
   \<and> filter (admitted mean (Fin 0) low high) pms = []
   \<and> (piano_rolls_loop pms mean (Fin 0) low high [] = Inr rolls \<longrightarrow> rolls = [])
   \<and> (round_double t = t \<longrightarrow> np_std [t] = Fin 0)
   \<and> (key_signature_changes pm \<noteq> [] \<and> track_pitches pm \<noteq> [] \<and>
       estimate_tempo pm = Inr t \<and> round_double t = t \<longrightarrow>
        piano_roll_filter [pm] = Inl EmptyCorpusError)"
proof -
  have none: "\<not> admitted m (Fin 0) l h p" for m l h p
    by (simp add: admitted_eq zero_std_tempo_range)
  have loop: "rolls = []" if "piano_rolls_loop pms mean (Fin 0) low high [] = Inr rolls"
  proof -
    have "piano_rolls_loop pms mean (Fin 0) low high acc = Inr rolls \<Longrightarrow> rolls = acc" for acc
      by (induction pms arbitrary: acc)
         (auto simp: get_min_max_pitch_eq zero_std_tempo_range split: sum.splits if_splits)
    with that show ?thesis by blast
  qed
  have single: "piano_roll_filter [pm] = Inl EmptyCorpusError"
    if "key_signature_changes pm \<noteq> []" "track_pitches pm \<noteq> []"
      "estimate_tempo pm = Inr t" "round_double t = t"
  proof -
    let ?r = "\<lparr>tempos = map (\<lambda>pm. projr (estimate_tempo pm)) [pm],
        freq_key = Counter (map (\<lambda>pm. key_number (hd (key_signature_changes pm))) [pm]),
        min_pitch = map (\<lambda>pm. Min (set (track_pitches pm))) [pm],
        max_pitch = map (\<lambda>pm. Max (set (track_pitches pm))) [pm]\<rparr>"
    from that have gen: "generate_midi_files_report [pm] = Inr ?r"
      by (intro generate_midi_files_report_ok) simp
    have "freq_key ?r \<noteq> []" "min_pitch ?r \<noteq> []" "max_pitch ?r \<noteq> []"
      by (simp_all add: Counter_not_Nil)
    from aggregation_report_ok [OF this] obtain k l h where
      "aggregation_report ?r = Inr (np_mean (tempos ?r), np_std (tempos ?r), k, l, h)"
      by blast
    with that(3,4) have agg: "aggregation_report ?r = Inr (np_mean (tempos ?r), Fin 0, k, l, h)"
      by (simp add: np_std_single)
    have "filter (admitted (np_mean (tempos ?r)) (Fin 0) l h) [pm] = []"
      by (simp add: none)
    with gen agg show ?thesis
      by (rule piano_roll_filter_none_admitted(2))
  qed
  from none loop single show ?thesis
    by (simp add: zero_std_tempo_range np_std_single)
qed

theorem zero_std_admits_none_witness:
  "\<not> is_in_tempo_range (Fin 119) (Fin 119) (Fin 0)
   \<and> np_std [119] = Fin 0
   \<and> piano_roll_filter [track_b] = Inl EmptyCorpusError"
proof -
  have "key_signature_changes track_b \<noteq> [] \<and> track_pitches track_b \<noteq> [] \<and>
      estimate_tempo track_b = Inr 119 \<and> round_double 119 = (119::real)"
    by (simp add: track_b_def example_track_simps)
  with zero_std_admits_none [of "Fin 119" "Fin 119" 0 0 track_b "[]" "[]" 119]
  show ?thesis by simp
qed

text \<open>
  Claim C6, as the code has it.  When the aggregation has succeeded and the range filter
  admits no track, the loop leaves \<open>piano_rolls\<close> empty, \<open>np.hstack\<close> raises on it, and
  that exception is the result of \<open>piano_roll_filter\<close> and of the run: no matrix is
  returned.
\<close>

theorem no_admitted_track_fails:
  assumes "generate_midi_files_report pms = Inr report"
    and "aggregation_report report = Inr (tm, ts, key, low, high)"
    and "filter (admitted tm ts low high) pms = []"
  shows "piano_rolls_loop pms tm ts low high [] = Inr []
    \<and> np_hstack ([] :: real ndarray list) = Inl EmptyCorpusError
    \<and> piano_roll_filter pms = Inl EmptyCorpusError
    \<and> (file_filter parse walk = Inr pms \<longrightarrow> main parse walk = Inl EmptyCorpusError)"
  using piano_roll_filter_none_admitted [OF assms]
  by (simp add: main_def)

theorem no_admitted_track_fails_witness:
  "generate_midi_files_report [track_a, track_d] =
     Inr \<lparr>tempos = [113, 127], freq_key = [(0, 2)], min_pitch = [40, 50], max_pitch = [90, 80]\<rparr>
   \<and> aggregation_report
       \<lparr>tempos = [113, 127], freq_key = [(0, 2)], min_pitch = [40, 50], max_pitch = [90, 80]\<rparr>
     = Inr (Fin 120, Fin 7, 0, 45, 85)
   \<and> filter (admitted (Fin 120) (Fin 7) 45 85) [track_a, track_d] = []
   \<and> piano_roll_filter [track_a, track_d] = Inl EmptyCorpusError"
proof -
  have "\<forall>pm\<in>set [track_a, track_d]. (\<exists>t. estimate_tempo pm = Inr t) \<and>
          key_signature_changes pm \<noteq> [] \<and> track_pitches pm \<noteq> []"
    by (simp add: track_a_def track_d_def example_track_simps)
  from generate_midi_files_report_ok [OF this]
  have gen: "generate_midi_files_report [track_a, track_d] =
     Inr \<lparr>tempos = [113, 127], freq_key = [(0, 2)], min_pitch = [40, 50], max_pitch = [90, 80]\<rparr>"
    by (simp add: track_a_def track_d_def example_track_simps Counter_def)
  have "sqrt 49 = 7"
    by (rule real_sqrt_unique) simp_all
  then have agg: "aggregation_report
       \<lparr>tempos = [113, 127], freq_key = [(0, 2)], min_pitch = [40, 50], max_pitch = [90, 80]\<rparr>
     = Inr (Fin 120, Fin 7, 0, 45, 85)"
    by (simp add: aggregation_report_def get_most_freq_value_def np_mean_int_def np_mean_def
        np_std_def np_sum_def pairwise_sum_small Let_def)
  have none: "filter (admitted (Fin 120) (Fin 7) 45 85) [track_a, track_d] = []"
    by (simp add: admitted_def example_min_max example_tempo is_in_tempo_range_def
        is_in_pitch_range_def)
  from no_admitted_track_fails [OF gen agg none] gen agg none show ?thesis
    by simp
qed

text \<open>
  When no file is retained, for instance when the only file has two key signatures, the
  run already fails in the aggregation: \<open>get_most_freq_value\<close> indexes an empty list.
\<close>

theorem empty_corpus_fails_in_aggregation:
  "file_filter example_parse [(''corpus'', [], [''k.mid''])] = Inr []
   \<and> generate_midi_files_report [] =
       Inr \<lparr>tempos = [], freq_key = [], min_pitch = [], max_pitch = []\<rparr>
   \<and> aggregation_report \<lparr>tempos = [], freq_key = [], min_pitch = [], max_pitch = []\<rparr>
       = Inl IndexError
   \<and> piano_roll_filter [] = Inl IndexError
   \<and> main example_parse [(''corpus'', [], [''k.mid''])] = Inl IndexError
   \<and> main example_parse [(''corpus'', [], [''k.mid''])] \<noteq> Inl EmptyCorpusError"
proof -
  have ff: "file_filter example_parse [(''corpus'', [], [''k.mid''])] = Inr []"
    by (simp add: file_filter_def walk_loop_eq walk_paths_def join_def parsed_files_def
        example_parse_def example_single_signature)
  have gen: "generate_midi_files_report [] =
       Inr \<lparr>tempos = [], freq_key = [], min_pitch = [], max_pitch = []\<rparr>"
    by (simp add: generate_midi_files_report_def Counter_def)
  have agg: "aggregation_report \<lparr>tempos = [], freq_key = [], min_pitch = [], max_pitch = []\<rparr>
       = Inl IndexError"
    by (simp add: aggregation_report_def get_most_freq_value_def)
  from gen agg have roll: "piano_roll_filter [] = Inl IndexError"
    by (simp add: piano_roll_filter_def)
  with ff have "main example_parse [(''corpus'', [], [''k.mid''])] = Inl IndexError"
    by (simp add: main_def)
  with ff gen agg roll show ?thesis by simp
qed

subsection \<open>The matrix assembler\<close>

lemma take_drop_nth:
  "m + n \<le> length xs \<Longrightarrow> take n (drop m xs) = map ((!) xs) [m..<m + n]"
proof (rule nth_equalityI)
  assume le: "m + n \<le> length xs"
  then show "length (take n (drop m xs)) = length (map ((!) xs) [m..<m + n])"
    by simp
  fix i assume "i < length (take n (drop m xs))"
  with le have "i < n" by simp
  with le show "take n (drop m xs) ! i = map ((!) xs) [m..<m + n] ! i"
    by simp
qed

lemma py_slice_inner:
  assumes "0 \<le> i" "i \<le> j" "j \<le> int (length xs)"
  shows "py_slice xs i j = map ((!) xs) [nat i..<nat j]"
proof -
  from assms have "py_slice xs i j = take (nat (j - i)) (drop (nat i) xs)"
    by (simp add: py_slice_def Let_def min_def)
  also from assms have "\<dots> = map ((!) xs) [nat i..<nat i + nat (j - i)]"
    by (intro take_drop_nth) linarith
  also from assms have "nat i + nat (j - i) = nat j" by linarith
  finally show ?thesis .
qed

lemma np_hstack_ok:
  assumes "as \<noteq> []" "\<forall>b\<in>set as. length (rows b) = n"
  shows "np_hstack as =
     Inr \<lparr>ncols = sum_list (map ncols as),
          rows = map (\<lambda>i. concat (map (\<lambda>b. rows b ! i) as)) [0..<n]\<rparr>"
  using assms by (cases as) (simp_all add: list_all_iff)

lemma shape_ndarray_T: "shape (ndarray_T a) = (ncols a, length (rows a))"
  by (simp add: shape_def ndarray_T_def)

lemma rows_ndarray_T:
  "rows (ndarray_T a) = map (\<lambda>j. map (\<lambda>i. rows a ! i ! j) [0..<length (rows a)]) [0..<ncols a]"
proof -
  have "map (\<lambda>r. r ! j) (rows a) = map (\<lambda>i. rows a ! i ! j) [0..<length (rows a)]" for j
    by (rule nth_equalityI) simp_all
  then show ?thesis by (simp add: ndarray_T_def)
qed


lemma upt_split_shift:
  "[0..<c + s] = [0..<c] @ map (\<lambda>k. k + c) [0..<s]"
proof -
  have "[0..<c + s] = [0..<c] @ [c..<c + s]"
    by (rule upt_add_eq_append) simp
  moreover have "map (\<lambda>k. k + c) [0..<s] = [c..<c + s]"
    using map_add_upt [of c s] by (simp only: add.commute)
  ultimately show ?thesis by (simp only:)
qed

lemma hstack_T_rows:
  assumes "\<forall>b\<in>set as. length (rows b) = n \<and> ndarray_ok b"
  shows "map (\<lambda>j. map (\<lambda>i. concat (map (\<lambda>b. rows b ! i) as) ! j) [0..<n])
           [0..<sum_list (map ncols as)]
       = concat (map (\<lambda>b. rows (ndarray_T b)) as)"
  using assms
proof (induction as)
  case Nil
  then show ?case by simp
next
  case (Cons a as)
  let ?c = "ncols a"
  let ?s = "sum_list (map ncols as)"
  let ?cell = "\<lambda>bs i j. concat (map (\<lambda>b. rows b ! i) bs) ! j"
  from Cons.prems have a: "length (rows a) = n" "ndarray_ok a" by auto
  then have len: "length (rows a ! i) = ?c" if "i < n" for i
    using that by (auto simp: ndarray_ok_def list_all_length)
  have here: "?cell (a # as) i j = rows a ! i ! j" if "i < n" "j < ?c" for i j
    using that len [of i] by (simp add: nth_append)
  have there: "?cell (a # as) i (k + ?c) = ?cell as i k" if "i < n" for i k
    using that len [of i] by (simp add: nth_append)
  have left: "map (\<lambda>j. map (\<lambda>i. ?cell (a # as) i j) [0..<n]) [0..<?c] = rows (ndarray_T a)"
    unfolding rows_ndarray_T a(1)
    by (intro map_cong refl) (simp_all only: here atLeastLessThan_iff set_upt)
  have right: "map (\<lambda>j. map (\<lambda>i. ?cell (a # as) i j) [0..<n]) (map (\<lambda>k. k + ?c) [0..<?s])
      = map (\<lambda>k. map (\<lambda>i. ?cell as i k) [0..<n]) [0..<?s]"
    unfolding map_map comp_def
    by (intro map_cong refl) (simp_all only: there atLeastLessThan_iff set_upt)
  from Cons.prems have "\<forall>b\<in>set as. length (rows b) = n \<and> ndarray_ok b" by simp
  from Cons.IH [OF this]
  have ih: "map (\<lambda>k. map (\<lambda>i. ?cell as i k) [0..<n]) [0..<?s]
      = concat (map (\<lambda>b. rows (ndarray_T b)) as)" .
  have "map (\<lambda>j. map (\<lambda>i. ?cell (a # as) i j) [0..<n]) [0..<sum_list (map ncols (a # as))]
      = map (\<lambda>j. map (\<lambda>i. ?cell (a # as) i j) [0..<n]) ([0..<?c] @ map (\<lambda>k. k + ?c) [0..<?s])"
    by (simp only: list.map sum_list.Cons upt_split_shift)
  also have "\<dots> = rows (ndarray_T a) @ concat (map (\<lambda>b. rows (ndarray_T b)) as)"
    by (simp only: map_append left right ih)
  finally show ?case by simp
qed


lemma hstack_T:
  assumes "as \<noteq> []" "\<forall>b\<in>set as. length (rows b) = n \<and> ndarray_ok b"
  shows "\<exists>M. np_hstack as = Inr M
     \<and> shape (ndarray_T M) = (sum_list (map ncols as), n)
     \<and> rows (ndarray_T M) = concat (map (\<lambda>b. rows (ndarray_T b)) as)"
proof -
  let ?f = "\<lambda>i. concat (map (\<lambda>b. rows b ! i) as)"
  let ?M = "\<lparr>ncols = sum_list (map ncols as), rows = map ?f [0..<n]\<rparr>"
  from assms have h: "np_hstack as = Inr ?M"
    by (intro np_hstack_ok) auto
  have sh: "shape (ndarray_T ?M) = (sum_list (map ncols as), n)"
    by (simp add: shape_ndarray_T)
  have "rows (ndarray_T ?M)
      = map (\<lambda>j. map (\<lambda>i. map ?f [0..<n] ! i ! j) [0..<n]) [0..<sum_list (map ncols as)]"
    by (simp add: rows_ndarray_T)
  also have "\<dots> = map (\<lambda>j. map (\<lambda>i. ?f i ! j) [0..<n]) [0..<sum_list (map ncols as)]"
    by (intro map_cong refl) simp
  also have "\<dots> = concat (map (\<lambda>b. rows (ndarray_T b)) as)"
    using assms(2) by (rule hstack_T_rows)
  finally show ?thesis using h sh by blast
qed

lemma ndarray_T_ok: "ndarray_ok (ndarray_T a)"
  by (simp add: ndarray_ok_def ndarray_T_def list_all_iff)

lemma concat_nth_offset:
  "i < length xss \<Longrightarrow> j < length (xss ! i) \<Longrightarrow>
   concat xss ! (sum_list (map length (take i xss)) + j) = xss ! i ! j"
proof (induction xss arbitrary: i)
  case Nil
  then show ?case by simp
next
  case (Cons xs xss)
  show ?case
  proof (cases i)
    case 0
    with Cons.prems show ?thesis by (simp add: nth_append)
  next
    case (Suc k)
    with Cons.prems have "concat xss ! (sum_list (map length (take k xss)) + j) = xss ! k ! j"
      by (intro Cons.IH) simp_all
    with Suc show ?thesis by (simp add: nth_append add.assoc)
  qed
qed

lemma aggregated_bounds:
  assumes gen: "generate_midi_files_report pms = Inr report"
    and agg: "aggregation_report report = Inr (tm, ts, key, low, high)"
    and ok: "list_all midi_ok pms"
    and ne: "pms \<noteq> []"
    and len: "length pms < 2 ^ 46"
  shows "0 \<le> low" and "high \<le> 127"
proof -
  let ?n = "length pms"
  let ?f = "\<lambda>p. round_double (real_of_int p)"
  let ?mins = "map (\<lambda>pm. Min (set (track_pitches pm))) pms"
  let ?maxs = "map (\<lambda>pm. Max (set (track_pitches pm))) pms"
  let ?mean = "\<lambda>xs. round_double (np_sum xs / round_double (real (length xs)))"
  from gen have has_notes: "\<forall>pm\<in>set pms. (\<exists>t. estimate_tempo pm = Inr t) \<and>
      key_signature_changes pm \<noteq> [] \<and> track_pitches pm \<noteq> []"
    by (rule generate_midi_files_report_InrD)
  from generate_midi_files_report_ok [OF this] gen
  have r: "min_pitch report = ?mins" "max_pitch report = ?maxs"
    by auto
  from aggregation_report_InrD(2,3) [OF agg] ne
  have low: "low = (if 0 \<le> ?mean (map ?f ?mins) then \<lfloor>?mean (map ?f ?mins)\<rfloor>
                    else \<lceil>?mean (map ?f ?mins)\<rceil>)"
    and high: "high = (if 0 \<le> ?mean (map ?f ?maxs) then \<lfloor>?mean (map ?f ?maxs)\<rfloor>
                    else \<lceil>?mean (map ?f ?maxs)\<rceil>)"
    by (auto simp: r np_mean_int_Fin)
  have range: "0 \<le> Min (set (track_pitches pm)) \<and> Max (set (track_pitches pm)) \<le> 127"
    if "pm \<in> set pms" for pm
  proof -
    from that has_notes have "track_pitches pm \<noteq> []" by simp
    moreover from that ok have "\<forall>p\<in>set (track_pitches pm). 0 \<le> p \<and> p \<le> 127"
      by (simp add: list_all_iff midi_ok_def)
    ultimately show ?thesis by simp
  qed
  from len have n53: "int ?n \<le> 2 ^ 53" "127 * int ?n \<le> 2 ^ 53"
    by simp_all
  have nd: "round_double (real ?n) = real ?n"
    using round_double_of_int [of "int ?n"] n53(1) by simp
  have sum0: "np_sum (replicate ?n 0) = 0"
    using pairwise_sum_const [of 0 ?n] by (simp add: np_sum_def)
  have sum127: "np_sum (replicate ?n 127) = 127 * real ?n"
    using pairwise_sum_const [of 127 ?n] n53(2) round_double_of_int [of "127 * int ?n"]
    by (simp add: np_sum_def)
  have "list_all2 (\<le>) (replicate ?n 0) (map ?f ?mins)"
    using range by (auto simp: list_all2_conv_all_nth intro: round_double_nonneg)
  with ne have "?mean (replicate ?n 0) \<le> ?mean (map ?f ?mins)"
    by (intro mean_mono) simp_all
  then have "0 \<le> ?mean (map ?f ?mins)"
    by (simp add: sum0)
  then show "0 \<le> low"
    by (simp add: low)
  have "?f (Max (set (track_pitches pm))) \<le> 127" if "pm \<in> set pms" for pm
  proof -
    from range [OF that] have "real_of_int (Max (set (track_pitches pm))) \<le> 127" by simp
    then have "?f (Max (set (track_pitches pm))) \<le> round_double 127"
      by (rule round_double_mono)
    then show ?thesis by simp
  qed
  then have "list_all2 (\<le>) (map ?f ?maxs) (replicate ?n 127)"
    by (simp add: list_all2_conv_all_nth)
  with ne have "?mean (map ?f ?maxs) \<le> ?mean (replicate ?n 127)"
    by (intro mean_mono) simp_all
  moreover from ne have "?mean (replicate ?n 127) = 127"
    by (simp add: sum127 nd)
  ultimately have "?mean (map ?f ?maxs) \<le> 127" by simp
  then show "high \<le> 127"
    unfolding high
    by (auto simp: floor_le_iff intro: order_trans [of _ 0])
qed

lemma slice_rows_ok:
  assumes "length (rows a) = 128" "ndarray_ok a" "0 \<le> low" "low \<le> high" "high \<le> 127"
  shows "rows (slice_rows a low (high + 1)) = map ((!) (rows a)) [nat low..<nat high + 1]"
    and "length (rows (slice_rows a low (high + 1))) = nat (high - low + 1)"
    and "ncols (slice_rows a low (high + 1)) = ncols a"
    and "ndarray_ok (slice_rows a low (high + 1))"
proof -
  from assms have "py_slice (rows a) low (high + 1) = map ((!) (rows a)) [nat low..<nat (high + 1)]"
    by (intro py_slice_inner) simp_all
  moreover from assms have "nat (high + 1) = nat high + 1" by simp
  ultimately show r: "rows (slice_rows a low (high + 1)) =
      map ((!) (rows a)) [nat low..<nat high + 1]"
    by (simp add: slice_rows_def)
  from assms show "length (rows (slice_rows a low (high + 1))) = nat (high - low + 1)"
    unfolding r by simp linarith
  show "ncols (slice_rows a low (high + 1)) = ncols a"
    by (simp add: slice_rows_def)
  from assms have "\<forall>i < 128. length (rows a ! i) = ncols a"
    by (simp add: ndarray_ok_def list_all_length)
  moreover from assms have "nat high < 128" by simp
  ultimately show "ndarray_ok (slice_rows a low (high + 1))"
    unfolding ndarray_ok_def r by (auto simp: list_all_iff slice_rows_def)
qed

text \<open>
  Claim C1.  When the range filter admits at least one track of a well-formed corpus,
  \<open>piano_roll_filter\<close> returns a matrix.  (The corpus has fewer than \<open>2\<^sup>4\<^sup>6\<close> tracks:
  then the sums of the pitches are exact in double arithmetic, and the two bounds are
  row numbers of a piano roll.)  Its shape is the total number of frames of the
  admitted tracks by \<open>high - low + 1\<close>, every row has that many entries, and the entry in
  the row of frame \<open>j\<close> of the \<open>i\<close>-th admitted track, the rows of the earlier admitted
  tracks coming first, and in column \<open>p\<close> is the entry of that track's piano roll for the
  pitch \<open>low + p\<close> and the frame \<open>j\<close>: each track contributes the rows \<open>low\<close> to
  \<open>high\<close> of its piano roll, the tracks are laid end to end in time in the order in which
  they were admitted, and the result is transposed.  Two slices of 50 and of 30 frames
  give 80 rows.
\<close>

theorem piano_roll_filter_shape:
  assumes "generate_midi_files_report pms = Inr report"
    and "aggregation_report report = Inr (tm, ts, key, low, high)"
    and "list_all midi_ok pms"
    and "length pms < 2 ^ 46"
    and "adm = filter (admitted tm ts low high) pms"
    and "adm \<noteq> []"
  shows "\<exists>result. piano_roll_filter pms = Inr result
    \<and> shape result =
        (sum_list (map (\<lambda>pm. ncols (get_piano_roll pm)) adm), nat (high - low + 1))
    \<and> ndarray_ok result
    \<and> (\<forall>i < length adm. \<forall>j < ncols (get_piano_roll (adm ! i)). \<forall>p < nat (high - low + 1).
          rows result ! (sum_list (map (\<lambda>pm. ncols (get_piano_roll pm)) (take i adm)) + j) ! p
            = rows (get_piano_roll (adm ! i)) ! (nat low + p) ! j)
    \<and> (\<forall>pm\<in>set pms. rows (slice_rows (get_piano_roll pm) low (high + 1)) =
           map ((!) (rows (get_piano_roll pm))) [nat low..<nat high + 1])
    \<and> 0 \<le> low \<and> low \<le> high \<and> high \<le> 127
    \<and> (length (rows a) = p' \<and> length (rows b) = p' \<and> ncols a = 50 \<and> ncols b = 30 \<longrightarrow>
         (\<exists>r. np_hstack [a, b] = Inr r \<and> shape (ndarray_T r) = (80, p')))"
proof -
  let ?slice = "\<lambda>pm. slice_rows (get_piano_roll pm) low (high + 1)"
  let ?T = "\<lambda>pm. ncols (get_piano_roll pm)"
  let ?P = "nat (high - low + 1)"
  from assms(5,6) have ne: "pms \<noteq> []" by auto
  from assms(5) have sub: "set adm \<subseteq> set pms" by auto
  from assms(1) have has_notes: "\<forall>pm\<in>set pms. (\<exists>t. estimate_tempo pm = Inr t) \<and>
      track_pitches pm \<noteq> []"
    by (auto dest: generate_midi_files_report_InrD)
  have low0: "0 \<le> low" and high127: "high \<le> 127"
    using aggregated_bounds [OF assms(1-3) ne assms(4)] by simp_all
  from assms(5,6) obtain pm where "pm \<in> set pms" "admitted tm ts low high pm"
    by (metis filter_False)
  then have "low \<le> Min (set (track_pitches pm))" "Max (set (track_pitches pm)) \<le> high"
    "track_pitches pm \<noteq> []"
    by (simp_all add: admitted_eq is_in_pitch_range_def del: Min_ge_iff Max_le_iff
        split: if_splits)
  with Min_le_Max_list [of "track_pitches pm"] have lh: "low \<le> high" by linarith
  have sl: "rows (?slice pm) = map ((!) (rows (get_piano_roll pm))) [nat low..<nat high + 1]"
    "length (rows (?slice pm)) = ?P"
    "ncols (?slice pm) = ncols (get_piano_roll pm)"
    "ndarray_ok (?slice pm)"
    if "pm \<in> set pms" for pm
  proof -
    from that assms(3) have "length (rows (get_piano_roll pm)) = 128"
      "ndarray_ok (get_piano_roll pm)"
      by (simp_all add: list_all_iff midi_ok_def)
    from slice_rows_ok [OF this low0 lh high127] show
      "rows (?slice pm) = map ((!) (rows (get_piano_roll pm))) [nat low..<nat high + 1]"
      "length (rows (?slice pm)) = ?P"
      "ncols (?slice pm) = ncols (get_piano_roll pm)"
      "ndarray_ok (?slice pm)"
      by simp_all
  qed
  have loop: "piano_rolls_loop pms tm ts low high [] = Inr (map ?slice adm)"
    using has_notes by (simp add: piano_rolls_loop_eq assms(5))
  have "map ?slice adm \<noteq> []"
    using assms(6) by simp
  moreover have "\<forall>b\<in>set (map ?slice adm). length (rows b) = ?P \<and> ndarray_ok b"
    using sl(2,4) sub by auto
  ultimately obtain M where M: "np_hstack (map ?slice adm) = Inr M"
    "shape (ndarray_T M) = (sum_list (map ncols (map ?slice adm)), ?P)"
    "rows (ndarray_T M) = concat (map (\<lambda>b. rows (ndarray_T b)) (map ?slice adm))"
    using hstack_T by blast
  have cols: "map ncols (map ?slice adm) = map ?T adm"
    using sl(3) sub by auto
  with M(2) have sh: "shape (ndarray_T M) = (sum_list (map ?T adm), ?P)"
    by (simp only:)
  let ?blocks = "map (\<lambda>pm. rows (ndarray_T (?slice pm))) adm"
  from M(3) have rw: "rows (ndarray_T M) = concat ?blocks"
    by (simp add: comp_def)
  have blen: "map length (take i ?blocks) = map ?T (take i adm)" for i
  proof -
    have "length (rows (ndarray_T (?slice pm))) = ?T pm" if "pm \<in> set adm" for pm
      using that sl(3) sub by (auto simp: ndarray_T_def)
    moreover have "set (take i adm) \<subseteq> set adm" by (rule set_take_subset)
    ultimately show ?thesis by (auto simp: take_map)
  qed
  have cell: "rows (ndarray_T M) ! (sum_list (map ?T (take i adm)) + j) ! p
      = rows (get_piano_roll (adm ! i)) ! (nat low + p) ! j"
    if "i < length adm" "j < ?T (adm ! i)" "p < ?P" for i j p
  proof -
    from that(1) sub have mem: "adm ! i \<in> set pms" by auto
    from that(1,2) sl(3) [OF mem] have j: "j < length (?blocks ! i)"
      by (simp add: ndarray_T_def)
    from that(1) have "i < length ?blocks" by simp
    from concat_nth_offset [OF this j]
    have "rows (ndarray_T M) ! (sum_list (map ?T (take i adm)) + j) = ?blocks ! i ! j"
      by (simp only: rw blen)
    also from that(1,2) sl(3) [OF mem]
    have "\<dots> = map (\<lambda>r. r ! j) (rows (?slice (adm ! i)))"
      by (simp add: ndarray_T_def)
    finally have "rows (ndarray_T M) ! (sum_list (map ?T (take i adm)) + j) ! p
        = rows (?slice (adm ! i)) ! p ! j"
      using that(3) sl(2) [OF mem] by simp
    also from that(3) low0 lh have "p < nat high + 1 - nat low" by linarith
    then have "rows (?slice (adm ! i)) ! p = rows (get_piano_roll (adm ! i)) ! (nat low + p)"
      by (simp add: sl(1) [OF mem] del: upt_Suc)
    finally show ?thesis .
  qed
  from assms(1,2) loop M(1) have res: "piano_roll_filter pms = Inr (ndarray_T M)"
    by (simp add: piano_roll_filter_def)
  have two: "\<exists>r. np_hstack [a, b] = Inr r \<and> shape (ndarray_T r) = (80, p')"
    if "length (rows a) = p'" "length (rows b) = p'" "ncols a = 50" "ncols b = 30"
    using that by (simp add: shape_ndarray_T)
  from res sh ndarray_T_ok [of M] cell sl(1) low0 lh high127 two show ?thesis
    by blast
qed

lemma example_track_midi_ok:
  "list_all (\<lambda>p. 0 \<le> p \<and> p \<le> 127) ps \<Longrightarrow> midi_ok (example_track tempo keys tcs ps n)"
  by (simp add: midi_ok_def example_track_simps ndarray_ok_def list_all_iff)

lemma example_midi_ok: "list_all midi_ok [track_a, track_b, track_c, track_d]"
  by (simp add: track_a_def track_b_def track_c_def track_d_def example_track_midi_ok)

lemma example_admitted:
  "\<not> admitted (Fin 120) (Fin 5) 53 76 track_a"
  "admitted (Fin 120) (Fin 5) 53 76 track_b"
  "admitted (Fin 120) (Fin 5) 53 76 track_c"
  "\<not> admitted (Fin 120) (Fin 5) 53 76 track_d"
  by (simp_all add: admitted_def example_min_max example_tempo is_in_tempo_range_def
      is_in_pitch_range_def)

lemma example_cells:
  "p < 128 \<Longrightarrow> j < n \<Longrightarrow>
   rows (get_piano_roll (example_track tempo keys tcs ps n)) ! p ! j = example_cell tempo p j"
  by (simp add: example_track_simps)

theorem piano_roll_filter_shape_witness:
  "\<exists>result. piano_roll_filter [track_a, track_b, track_c, track_d] = Inr result
     \<and> shape result = (5, 24)
     \<and> rows result ! 0 ! 0 = example_cell 119 53 0
     \<and> rows result ! 1 ! 23 = example_cell 119 76 1
     \<and> rows result ! 2 ! 0 = example_cell 121 53 0
     \<and> rows result ! 4 ! 23 = example_cell 121 76 2"
proof -
  let ?adm = "[track_b, track_c]"
  have adm: "?adm = filter (admitted (Fin 120) (Fin 5) 53 76) [track_a, track_b, track_c, track_d]"
    by (simp add: example_admitted)
  have len: "length [track_a, track_b, track_c, track_d] < 2 ^ 46" by simp
  have cols: "ncols (get_piano_roll track_b) = 2" "ncols (get_piano_roll track_c) = 3"
    by (simp_all add: track_b_def track_c_def example_track_simps)
  from piano_roll_filter_shape [OF example_report example_aggregation example_midi_ok len adm]
  obtain result where res:
    "piano_roll_filter [track_a, track_b, track_c, track_d] = Inr result"
    "shape result =
       (sum_list (map (\<lambda>pm. ncols (get_piano_roll pm)) ?adm), nat (76 - 53 + 1))"
    "\<forall>i < length ?adm. \<forall>j < ncols (get_piano_roll (?adm ! i)). \<forall>p < nat (76 - 53 + 1).
        rows result ! (sum_list (map (\<lambda>pm. ncols (get_piano_roll pm)) (take i ?adm)) + j) ! p
          = rows (get_piano_roll (?adm ! i)) ! (nat 53 + p) ! j"
    by blast
  from res(2) have sh: "shape result = (5, 24)"
    by (simp add: cols)
  from res(3) have c: "\<And>i j p. i < 2 \<Longrightarrow> j < ncols (get_piano_roll (?adm ! i)) \<Longrightarrow> p < 24 \<Longrightarrow>
        rows result ! (sum_list (map (\<lambda>pm. ncols (get_piano_roll pm)) (take i ?adm)) + j) ! p
          = rows (get_piano_roll (?adm ! i)) ! (53 + p) ! j"
    by simp
  from c [of 0 0 0] have c1: "rows result ! 0 ! 0 = example_cell 119 53 0"
    by (simp add: cols) (simp add: track_b_def example_cells)
  from c [of 0 1 23] have c2: "rows result ! 1 ! 23 = example_cell 119 76 1"
    by (simp add: cols) (simp add: track_b_def example_cells)
  from c [of 1 0 0] have c3: "rows result ! 2 ! 0 = example_cell 121 53 0"
    by (simp add: cols) (simp add: track_c_def example_cells)
  from c [of 1 2 23] have c4: "rows result ! 4 ! 23 = example_cell 121 76 2"
    by (simp add: cols) (simp add: track_c_def example_cells)
  from res(1) sh c1 c2 c3 c4 show ?thesis by blast
qed

end
